theory Spec2Isabelle
  imports Main "HOL-Library.Char_ord" "HOL-Library.List_Lexorder" "HOL-Library.Multiset"
begin

section \<open>Forksort: a process-parallel merge sort over pipes (main.c)\<close>

text \<open>
  The program reads lines from standard input, hands one half of them to each of two
  children running the same program, waits for both and merges the two sorted streams the
  children wrote back (\<^verbatim>\<open>mergesort\<close> over \<^verbatim>\<open>cmp_lock\<close>).

  Modelling conventions.
  \<^item> A stream (a \<^verbatim>\<open>FILE *\<close>, a pipe, standard input or output) is the list of its bytes.
  \<^item> A line buffer (\<^verbatim>\<open>char *\<close>) is the list of its bytes up to the terminating NUL, so the
    streams are text: no NUL byte. \<^verbatim>\<open>strcmp\<close> is then the lexicographic comparison of the
    bytes as unsigned values, which is the order of \<open>char list\<close> here.
  \<^item> \<^verbatim>\<open>int\<close> counters are unbounded integers: they count lines and stay far below
    \<^verbatim>\<open>INT_MAX\<close>.
  \<^item> \<^verbatim>\<open>exit\<close> ends the process: a function that may exit returns \<open>Inl\<close> of the outcome of
    the process (what it wrote to standard output and to the error stream, its status),
    and \<open>Inr\<close> of the new state where it returns to its caller.
  \<^item> Allocation, \<^verbatim>\<open>fdopen\<close>, \<^verbatim>\<open>pipe\<close>, \<^verbatim>\<open>dup2\<close> and writes into a pipe succeed; pipes hold any
    number of bytes.
\<close>

subsection \<open>Streams and lines\<close>

abbreviation NL :: char where "NL \<equiv> CHR 0x0A"

text \<open>
  \<^verbatim>\<open>getline(3)\<close>: the bytes up to and including the next newline, or up to the end of the
  stream when no newline is left; \<open>None\<close> (the \<^verbatim>\<open>-1\<close> of the C function) at the end of the
  stream. The result is the line and the rest of the stream.
\<close>

fun getline :: "string \<Rightarrow> (string \<times> string) option" where
  "getline [] = None"
| "getline (c # cs) =
     (if c = NL then Some ([c], cs)
      else (case getline cs of
              None \<Rightarrow> Some ([c], [])
            | Some (l, r) \<Rightarrow> Some (c # l, r)))"

lemma getline_shorter: "getline s = Some (l, r) \<Longrightarrow> length r < length s"
  by (induction s arbitrary: l r) (auto split: if_splits option.splits)

text \<open>The lines a reader gets from a stream by calling \<^verbatim>\<open>getline\<close> until it fails.\<close>

function lines_of :: "string \<Rightarrow> string list" where
  "lines_of s = (case getline s of None \<Rightarrow> [] | Some (l, r) \<Rightarrow> l # lines_of r)"
  by pat_completeness auto
termination
  by (relation "measure length") (auto simp: getline_shorter)

declare lines_of.simps [simp del]

subsection \<open>Process outcomes\<close>

definition EXIT_SUCCESS :: int where "EXIT_SUCCESS = 0"
definition EXIT_FAILURE :: int where "EXIT_FAILURE = 1"

record outcome =
  out :: string
  err :: string
  status :: int

text \<open>
  \<^verbatim>\<open>error_exit(msg)\<close>: the message and a newline on the error stream, status
  \<^verbatim>\<open>EXIT_FAILURE\<close>. The first argument is what the process has written to standard
  output so far; nothing is added to it.
\<close>

definition error_exit :: "string \<Rightarrow> string \<Rightarrow> outcome" where
  "error_exit written msg = \<lparr>out = written, err = msg @ [NL], status = EXIT_FAILURE\<rparr>"

text \<open>\<^verbatim>\<open>exit(EXIT_SUCCESS)\<close> of a process that has written \<open>written\<close>.\<close>

definition exit_success :: "string \<Rightarrow> outcome" where
  "exit_success written = \<lparr>out = written, err = [], status = EXIT_SUCCESS\<rparr>"

text \<open>
  \<^verbatim>\<open>readline\<close>: \<^verbatim>\<open>getline\<close>, and \<^verbatim>\<open>error_exit("Could not read line")\<close> when it fails.
\<close>

definition readline :: "string \<Rightarrow> string \<Rightarrow> outcome + (string \<times> string)" where
  "readline written stream =
     (case getline stream of
        None \<Rightarrow> Inl (error_exit written ''Could not read line'')
      | Some (l, r) \<Rightarrow> Inr (l, r))"

text \<open>
  \<^verbatim>\<open>strcmp\<close>; only the sign of the result is specified by C.
\<close>

definition strcmp :: "string \<Rightarrow> string \<Rightarrow> int" where
  "strcmp a b = (if a < b then - 1 else if a = b then 0 else 1)"

text \<open>
  \<^verbatim>\<open>print(line)\<close> overwrites a final newline of the buffer with NUL (\<open>strip\<close> is the buffer
  afterwards) and writes the buffer and a newline. The source reads \<^verbatim>\<open>line[len - 1]\<close>, which
  is inside the buffer because \<^verbatim>\<open>getline\<close> never returns an empty line.
\<close>

definition strip :: "string \<Rightarrow> string" where
  "strip line = (if line \<noteq> [] \<and> last line = NL then butlast line else line)"

definition print :: "string \<Rightarrow> string" where
  "print line = strip line @ [NL]"

subsection \<open>The stream merger\<close>

record merger =
  file1 :: string
  file2 :: string
  left :: string
  right :: string
  lock :: int
  processed_c1 :: int
  processed_c2 :: int
  stdout :: string

definition print_left :: "merger \<Rightarrow> merger" where
  "print_left m = m\<lparr>left := strip (left m), stdout := stdout m @ print (left m)\<rparr>"

definition print_right :: "merger \<Rightarrow> merger" where
  "print_right m = m\<lparr>right := strip (right m), stdout := stdout m @ print (right m)\<rparr>"

definition readline_left :: "merger \<Rightarrow> outcome + merger" where
  "readline_left m =
     (case readline (stdout m) (file1 m) of
        Inl e \<Rightarrow> Inl e
      | Inr (l, r) \<Rightarrow> Inr (m\<lparr>left := l, file1 := r\<rparr>))"

definition readline_right :: "merger \<Rightarrow> outcome + merger" where
  "readline_right m =
     (case readline (stdout m) (file2 m) of
        Inl e \<Rightarrow> Inl e
      | Inr (l, r) \<Rightarrow> Inr (m\<lparr>right := l, file2 := r\<rparr>))"

text \<open>\<^verbatim>\<open>cmp_lock\<close>: compare the two buffers, print the smaller, lock the other.\<close>

definition cmp_lock :: "merger \<Rightarrow> outcome + merger" where
  "cmp_lock m =
     (if lock m = 0 then
        (if strcmp (left m) (right m) < 0
         then Inr ((print_left m)\<lparr>lock := 2, processed_c1 := processed_c1 m + 1\<rparr>)
         else Inr ((print_right m)\<lparr>lock := 1, processed_c2 := processed_c2 m + 1\<rparr>))
      else if lock m = 1 then
        (if strcmp (left m) (right m) < 0
         then Inr ((print_left m)\<lparr>lock := 2, processed_c1 := processed_c1 m + 1\<rparr>)
         else Inr ((print_right m)\<lparr>processed_c2 := processed_c2 m + 1\<rparr>))
      else if lock m = 2 then
        (if strcmp (left m) (right m) < 0
         then Inr ((print_left m)\<lparr>processed_c1 := processed_c1 m + 1\<rparr>)
         else Inr ((print_right m)\<lparr>lock := 1, processed_c2 := processed_c2 m + 1\<rparr>))
      else Inl (error_exit (stdout m) ''buffstate cannot be > 2''))"

text \<open>The \<^verbatim>\<open>switch (lock)\<close> at the head of the loop body: which side is read.\<close>

definition read_next :: "merger \<Rightarrow> outcome + merger" where
  "read_next m =
     (if lock m = 0 then
        (case readline_left m of Inl e \<Rightarrow> Inl e | Inr m' \<Rightarrow> readline_right m')
      else if lock m = 1 then readline_right m
      else if lock m = 2 then readline_left m
      else Inl (error_exit (stdout m) ''lock cannot be > 2''))"

definition loop_body :: "merger \<Rightarrow> outcome + merger" where
  "loop_body m = (case read_next m of Inl e \<Rightarrow> Inl e | Inr m' \<Rightarrow> cmp_lock m')"

lemma readline_left_shorter:
  "readline_left m = Inr m' \<Longrightarrow> length (file1 m') < length (file1 m) \<and> file2 m' = file2 m"
  by (auto simp: readline_left_def readline_def getline_shorter
      split: option.splits sum.splits prod.splits)

lemma readline_right_shorter:
  "readline_right m = Inr m' \<Longrightarrow> length (file2 m') < length (file2 m) \<and> file1 m' = file1 m"
  by (auto simp: readline_right_def readline_def getline_shorter
      split: option.splits sum.splits prod.splits)

lemma read_next_shorter:
  "read_next m = Inr m' \<Longrightarrow>
     length (file1 m') + length (file2 m') < length (file1 m) + length (file2 m)"
  by (fastforce simp: read_next_def split: if_splits sum.splits
      dest: readline_left_shorter readline_right_shorter)

lemma cmp_lock_files:
  "cmp_lock m = Inr m' \<Longrightarrow> file1 m' = file1 m \<and> file2 m' = file2 m"
  by (auto simp: cmp_lock_def print_left_def print_right_def split: if_splits)

lemma loop_body_shorter:
  "loop_body m = Inr m' \<Longrightarrow>
     length (file1 m') + length (file2 m') < length (file1 m) + length (file2 m)"
  by (auto simp: loop_body_def split: sum.splits
      dest!: read_next_shorter cmp_lock_files)

text \<open>
  \<^verbatim>\<open>while (processed_c1 != wr_count1 && processed_c2 != wr_count2)\<close>. Every iteration
  reads a line or exits, so the loop ends on every pair of (finite) streams.
\<close>

function merge_loop :: "int \<Rightarrow> int \<Rightarrow> merger \<Rightarrow> outcome + merger" where
  "merge_loop wr_count1 wr_count2 m =
     (if processed_c1 m \<noteq> wr_count1 \<and> processed_c2 m \<noteq> wr_count2 then
        (case loop_body m of
           Inl e \<Rightarrow> Inl e
         | Inr m' \<Rightarrow> merge_loop wr_count1 wr_count2 m')
      else Inr m)"
  by pat_completeness auto
termination
  by (relation "measure (\<lambda>(c1, c2, m). length (file1 m) + length (file2 m))")
     (auto dest: loop_body_shorter)

declare merge_loop.simps [simp del]

text \<open>The \<^verbatim>\<open>switch (lock)\<close> after the loop: print the locked line.\<close>

definition print_locked :: "merger \<Rightarrow> outcome + merger" where
  "print_locked m =
     (if lock m = 1 then Inr ((print_left m)\<lparr>processed_c1 := processed_c1 m + 1\<rparr>)
      else if lock m = 2 then Inr ((print_right m)\<lparr>processed_c2 := processed_c2 m + 1\<rparr>)
      else Inl (error_exit (stdout m) ''lock cannot be 0 or > 2''))"

text \<open>
  \<^verbatim>\<open>for (int i = processed_c1; i < wr_count1; i++) { readline(&left, ...); print(left); }\<close>
  and the same loop on the right side. The loop counter is the first argument.
\<close>

function drain_left :: "int \<Rightarrow> int \<Rightarrow> merger \<Rightarrow> outcome + merger" where
  "drain_left i wr_count1 m =
     (if i < wr_count1 then
        (case readline_left m of
           Inl e \<Rightarrow> Inl e
         | Inr m' \<Rightarrow> drain_left (i + 1) wr_count1 (print_left m'))
      else Inr m)"
  by pat_completeness auto
termination
  by (relation "measure (\<lambda>(i, c, m). nat (c - i))") auto

function drain_right :: "int \<Rightarrow> int \<Rightarrow> merger \<Rightarrow> outcome + merger" where
  "drain_right i wr_count2 m =
     (if i < wr_count2 then
        (case readline_right m of
           Inl e \<Rightarrow> Inl e
         | Inr m' \<Rightarrow> drain_right (i + 1) wr_count2 (print_right m'))
      else Inr m)"
  by pat_completeness auto
termination
  by (relation "measure (\<lambda>(i, c, m). nat (c - i))") auto

declare drain_left.simps [simp del]
declare drain_right.simps [simp del]

definition drain :: "int \<Rightarrow> int \<Rightarrow> merger \<Rightarrow> outcome + merger" where
  "drain wr_count1 wr_count2 m =
     (if processed_c1 m \<noteq> wr_count1 then drain_left (processed_c1 m) wr_count1 m
      else if processed_c2 m \<noteq> wr_count2 then drain_right (processed_c2 m) wr_count2 m
      else Inr m)"

text \<open>The state of \<^verbatim>\<open>mergesort\<close> after its declarations: both buffers \<^verbatim>\<open>NULL\<close>.\<close>

definition init :: "string \<Rightarrow> string \<Rightarrow> merger" where
  "init s1 s2 =
     \<lparr>file1 = s1, file2 = s2, left = [], right = [], lock = 0,
      processed_c1 = 0, processed_c2 = 0, stdout = []\<rparr>"

text \<open>The trivial case of \<^verbatim>\<open>mergesort\<close>: one line on each side; it ends the process.\<close>

definition merge_trivial :: "merger \<Rightarrow> outcome" where
  "merge_trivial m =
     (case readline_left m of
        Inl e \<Rightarrow> e
      | Inr m1 \<Rightarrow>
         (case readline_right m1 of
            Inl e \<Rightarrow> e
          | Inr m2 \<Rightarrow>
             (if strcmp (left m2) (right m2) < 0
              then exit_success (stdout (print_right (print_left m2)))
              else exit_success (stdout (print_left (print_right m2))))))"

text \<open>The general case: the loop, the locked line, the rest of the other side.\<close>

definition merge_general :: "int \<Rightarrow> int \<Rightarrow> merger \<Rightarrow> outcome + merger" where
  "merge_general wr_count1 wr_count2 m =
     (case merge_loop wr_count1 wr_count2 m of
        Inl e \<Rightarrow> Inl e
      | Inr m1 \<Rightarrow>
         (case print_locked m1 of
            Inl e \<Rightarrow> Inl e
          | Inr m2 \<Rightarrow> drain wr_count1 wr_count2 m2))"

text \<open>
  \<^verbatim>\<open>mergesort(fd1, fd2, wr_count1, wr_count2)\<close> on the streams behind the two descriptors.
\<close>

definition mergesort :: "string \<Rightarrow> string \<Rightarrow> int \<Rightarrow> int \<Rightarrow> outcome + merger" where
  "mergesort s1 s2 wr_count1 wr_count2 =
     (if wr_count1 = 1 \<and> wr_count2 = 1 then Inl (merge_trivial (init s1 s2))
      else merge_general wr_count1 wr_count2 (init s1 s2))"

text \<open>
  The end of \<^verbatim>\<open>main\<close>: \<^verbatim>\<open>mergesort(...); exit(EXIT_SUCCESS);\<close>. A process that left
  \<^verbatim>\<open>mergesort\<close> through \<^verbatim>\<open>exit\<close> keeps that outcome.
\<close>

definition finish :: "outcome + merger \<Rightarrow> outcome" where
  "finish r = (case r of Inl e \<Rightarrow> e | Inr m \<Rightarrow> exit_success (stdout m))"

definition run_merger :: "string \<Rightarrow> string \<Rightarrow> int \<Rightarrow> int \<Rightarrow> outcome" where
  "run_merger s1 s2 wr_count1 wr_count2 = finish (mergesort s1 s2 wr_count1 wr_count2)"

subsection \<open>The loop seen from outside\<close>

text \<open>
  \<open>loop_reach c1 c2 m0 n m\<close>: started in \<open>m0\<close>, the loop is at its head in state \<open>m\<close>
  after \<open>n\<close> iterations.
\<close>

inductive loop_reach :: "int \<Rightarrow> int \<Rightarrow> merger \<Rightarrow> nat \<Rightarrow> merger \<Rightarrow> bool"
  for c1 c2 m0 where
  start: "loop_reach c1 c2 m0 0 m0"
| iter: "loop_reach c1 c2 m0 n m \<Longrightarrow>
         processed_c1 m \<noteq> c1 \<and> processed_c2 m \<noteq> c2 \<Longrightarrow>
         loop_body m = Inr m' \<Longrightarrow>
         loop_reach c1 c2 m0 (Suc n) m'"

text \<open>
  The state at the head of the loop, relative to the lines of the two streams: before
  the first iteration nothing is read; afterwards one side is locked, its buffer holds
  the line of that side that comes after the processed ones, and that side is not yet
  fully processed.
\<close>

definition pending_inv :: "string \<Rightarrow> string \<Rightarrow> int \<Rightarrow> int \<Rightarrow> merger \<Rightarrow> bool" where
  "pending_inv s1 s2 c1 c2 m \<longleftrightarrow>
     (lock m = 0 \<and> processed_c1 m = 0 \<and> processed_c2 m = 0 \<and>
      lines_of (file1 m) = lines_of s1 \<and> lines_of (file2 m) = lines_of s2)
   \<or> (lock m = 1 \<and> 0 \<le> processed_c1 m \<and> processed_c1 m < c1 \<and>
      1 \<le> processed_c2 m \<and> processed_c2 m \<le> c2 \<and>
      nat (processed_c1 m) < length (lines_of s1) \<and> left m = (lines_of s1) ! nat (processed_c1 m) \<and>
      lines_of (file1 m) = drop (Suc (nat (processed_c1 m))) (lines_of s1) \<and>
      lines_of (file2 m) = drop (nat (processed_c2 m)) (lines_of s2))
   \<or> (lock m = 2 \<and> 0 \<le> processed_c2 m \<and> processed_c2 m < c2 \<and>
      1 \<le> processed_c1 m \<and> processed_c1 m \<le> c1 \<and>
      nat (processed_c2 m) < length (lines_of s2) \<and> right m = (lines_of s2) ! nat (processed_c2 m) \<and>
      lines_of (file1 m) = drop (nat (processed_c1 m)) (lines_of s1) \<and>
      lines_of (file2 m) = drop (Suc (nat (processed_c2 m))) (lines_of s2))"

text \<open>
  One iteration: exactly one counter grows by one, and one line (some bytes without a
  newline, then a newline) is added to the output.
\<close>

definition one_step :: "merger \<Rightarrow> merger \<Rightarrow> bool" where
  "one_step m m' \<longleftrightarrow>
     (processed_c1 m' = processed_c1 m + 1 \<and> processed_c2 m' = processed_c2 m \<or>
      processed_c1 m' = processed_c1 m \<and> processed_c2 m' = processed_c2 m + 1) \<and>
     (\<exists>l. stdout m' = stdout m @ l @ [NL] \<and> NL \<notin> set l)"

subsection \<open>Reference notions for the merger\<close>

text \<open>
  The merge of two lists of lines that the merger is compared with: the comparison is
  the one \<^verbatim>\<open>cmp_lock\<close> makes, on the lines as they were read.
\<close>

fun merge_lines :: "string list \<Rightarrow> string list \<Rightarrow> string list" where
  "merge_lines [] ys = ys"
| "merge_lines (x # xs) [] = x # xs"
| "merge_lines (x # xs) (y # ys) =
     (if strcmp x y < 0 then x # merge_lines xs (y # ys) else y # merge_lines (x # xs) ys)"

text \<open>
  \<open>contents\<close>: the lines of a stream without their terminators. \<open>terminated\<close>: the
  stream is empty or ends with a newline, so each of its lines has its terminator.
  \<open>plain\<close>: no byte of the stream is below the newline (no TAB, no other control byte
  from 0x01 to 0x09, no NUL).
\<close>

definition contents :: "string \<Rightarrow> string list" where
  "contents s = map strip (lines_of s)"

definition terminated :: "string \<Rightarrow> bool" where
  "terminated s \<longleftrightarrow> s = [] \<or> last s = NL"

definition plain :: "string \<Rightarrow> bool" where
  "plain s \<longleftrightarrow> (\<forall>c \<in> set s. NL \<le> c)"

text \<open>
  The same merge, cut where a line is wanted from a stream that has ended: \<open>short1\<close>
  and \<open>short2\<close> say which of the two lists stand for a stream that ends before its
  promised count. When the list of such a stream is used up, nothing follows; when the
  list of the other stream is used up (its count is reached), what is left of the first
  follows.
\<close>

fun merge_cut :: "bool \<Rightarrow> bool \<Rightarrow> string list \<Rightarrow> string list \<Rightarrow> string list" where
  "merge_cut short1 short2 [] ys = (if short1 then [] else ys)"
| "merge_cut short1 short2 (x # xs) [] = (if short2 then [] else x # xs)"
| "merge_cut short1 short2 (x # xs) (y # ys) =
     (if strcmp x y < 0 then x # merge_cut short1 short2 xs (y # ys)
      else y # merge_cut short1 short2 (x # xs) ys)"

text \<open>
  \<open>written_lines\<close>: the cut merge of the promised lines of two streams, of which at
  least one is shorter than promised. \<open>rest_left\<close> and \<open>rest_right\<close>: the same from a
  state of the merger in which the left or the right side is locked.
\<close>

definition written_lines :: "string \<Rightarrow> string \<Rightarrow> int \<Rightarrow> int \<Rightarrow> string list" where
  "written_lines s1 s2 c1 c2 =
     merge_cut (int (length (lines_of s1)) < c1) (int (length (lines_of s2)) < c2)
       (take (nat c1) (lines_of s1)) (take (nat c2) (lines_of s2))"

definition rest_left :: "int \<Rightarrow> int \<Rightarrow> merger \<Rightarrow> string list" where
  "rest_left c1 c2 m =
     merge_cut (int (length (lines_of (file1 m))) < c1 - processed_c1 m - 1)
               (int (length (lines_of (file2 m))) < c2 - processed_c2 m)
               (left m # take (nat (c1 - processed_c1 m - 1)) (lines_of (file1 m)))
               (take (nat (c2 - processed_c2 m)) (lines_of (file2 m)))"

definition rest_right :: "int \<Rightarrow> int \<Rightarrow> merger \<Rightarrow> string list" where
  "rest_right c1 c2 m =
     merge_cut (int (length (lines_of (file1 m))) < c1 - processed_c1 m)
               (int (length (lines_of (file2 m))) < c2 - processed_c2 m - 1)
               (take (nat (c1 - processed_c1 m)) (lines_of (file1 m)))
               (right m # take (nat (c2 - processed_c2 m - 1)) (lines_of (file2 m)))"

section \<open>The main program\<close>

subsection \<open>Reading the lines\<close>

text \<open>
  The array \<^verbatim>\<open>lines\<close> starts with room for \<^verbatim>\<open>STEPSIZE\<close> pointers and grows by
  \<^verbatim>\<open>STEPSIZE\<close>. In the state of the reading loop, \<open>unread\<close> is the rest of standard
  input, \<open>lines\<close> the pointers stored so far (\<^verbatim>\<open>numlines\<close> is their number, so the store
  \<^verbatim>\<open>lines[numlines] = line\<close> appends), \<open>arrlen\<close> the allocated capacity, and \<open>stores\<close>
  the index and the capacity at each store, in order. The program is started without
  arguments (\<^verbatim>\<open>argc == 1\<close>); \<^verbatim>\<open>max_buffer_size\<close> is written and never read, and is left
  out. A store at an index equal to the capacity lands behind the allocated block; the
  model records it in \<open>stores\<close> and keeps the line, as an allocator with slack behind
  the block does.
\<close>

definition STEPSIZE :: int where "STEPSIZE = 10"

record ingest =
  unread :: string
  lines :: "string list"
  numlines :: int
  arrlen :: int
  stores :: "(int \<times> int) list"

text \<open>
  The body of the loop after \<^verbatim>\<open>getline\<close>: the store, then the capacity check and the
  growth, then the increment.
\<close>

definition store_line :: "string \<Rightarrow> ingest \<Rightarrow> ingest" where
  "store_line line ing =
     (let ing1 = ing\<lparr>lines := lines ing @ [line],
                       stores := stores ing @ [(numlines ing, arrlen ing)]\<rparr>;
          ing2 = (if numlines ing1 = arrlen ing1
                  then ing1\<lparr>arrlen := arrlen ing1 + STEPSIZE\<rparr> else ing1)
      in ing2\<lparr>numlines := numlines ing2 + 1\<rparr>)"

lemma unread_store_line [simp]: "unread (store_line line ing) = unread ing"
  by (simp add: store_line_def Let_def)

function read_loop :: "ingest \<Rightarrow> ingest" where
  "read_loop ing =
     (case getline (unread ing) of
        None \<Rightarrow> ing
      | Some (line, rest) \<Rightarrow> read_loop (store_line line (ing\<lparr>unread := rest\<rparr>)))"
  by pat_completeness auto
termination
  by (relation "measure (\<lambda>ing. length (unread ing))") (auto simp: getline_shorter)

declare read_loop.simps [simp del]

definition read_lines :: "string \<Rightarrow> ingest" where
  "read_lines stdin =
     read_loop \<lparr>unread = stdin, lines = [], numlines = 0, arrlen = STEPSIZE, stores = []\<rparr>"

subsection \<open>Feeding the children\<close>

text \<open>
  \<^verbatim>\<open>for (int i = ...; i < bound; i++) { fputs(lines[i], wr_file); wr_count += 1; }\<close>:
  the bytes written into the pipe of a child and the number of lines written. In
  \<^verbatim>\<open>main\<close> the index stays inside the array: \<open>bound\<close> is at most \<^verbatim>\<open>numlines\<close>.
\<close>

function feed :: "string list \<Rightarrow> int \<Rightarrow> int \<Rightarrow> string \<Rightarrow> int \<Rightarrow> string \<times> int" where
  "feed ls i bound wr_file wr_count =
     (if i < bound then feed ls (i + 1) bound (wr_file @ ls ! nat i) (wr_count + 1)
      else (wr_file, wr_count))"
  by pat_completeness auto
termination
  by (relation "measure (\<lambda>(ls, i, bound, wr_file, wr_count). nat (bound - i))") auto

declare feed.simps [simp del]

subsection \<open>Forking and merging\<close>

text \<open>
  \<open>spawn1\<close> and \<open>spawn2\<close> stand for the two calls of \<^verbatim>\<open>fork\<close>, each followed by
  \<^verbatim>\<open>execlp\<close> in the child: \<open>None\<close> when \<^verbatim>\<open>fork\<close> fails, otherwise the outcome of the child
  running this program on the bytes of its standard input. What a child writes to the
  error stream is not collected. The parent writes the first \<^verbatim>\<open>numlines / 2\<close> lines to the first child and the lines from
  \<^verbatim>\<open>wr_count1\<close> on to the second, waits for both, exits with failure unless both ended
  with status 0, and merges what they wrote. With one line the program prints it as it
  was read (\<^verbatim>\<open>fprintf(stdout, "%s", lines[0])\<close>) and exits.
\<close>

definition main ::
  "(string \<Rightarrow> outcome) option \<Rightarrow> (string \<Rightarrow> outcome) option \<Rightarrow> string \<Rightarrow> outcome" where
  "main spawn1 spawn2 stdin =
     (let ing = read_lines stdin in
      if numlines ing = 1 then exit_success (lines ing ! 0)
      else
        (case spawn1 of
           None \<Rightarrow> error_exit [] ''fork2 failed''
         | Some child1 \<Rightarrow>
            (let (pipe1, wr_count1) = feed (lines ing) 0 (numlines ing div 2) [] 0 in
             case spawn2 of
               None \<Rightarrow> error_exit [] ''fork2 failed''
             | Some child2 \<Rightarrow>
                (let (pipe2, wr_count2) = feed (lines ing) wr_count1 (numlines ing) [] 0 in
                 if status (child1 pipe1) \<noteq> EXIT_SUCCESS
                 then error_exit [] ''Error occured during waiting for child: pid1''
                 else if status (child2 pipe2) \<noteq> EXIT_SUCCESS
                 then error_exit [] ''Error occured during waiting for child: pid2''
                 else run_merger (out (child1 pipe1)) (out (child2 pipe2))
                        wr_count1 wr_count2))))"

text \<open>
  The process tree: \<open>fuel\<close> is the number of generations of children the system still
  lets the process create; with none left, \<^verbatim>\<open>fork\<close> fails.
\<close>

primrec forksort :: "nat \<Rightarrow> string \<Rightarrow> outcome" where
  "forksort 0 = main None None"
| "forksort (Suc n) = main (Some (forksort n)) (Some (forksort n))"

section \<open>Lemmas\<close>

subsection \<open>Field lemmas\<close>

lemma init_fields [simp]:
  "file1 (init s1 s2) = s1" "file2 (init s1 s2) = s2" "left (init s1 s2) = []"
  "right (init s1 s2) = []" "lock (init s1 s2) = 0" "processed_c1 (init s1 s2) = 0"
  "processed_c2 (init s1 s2) = 0" "stdout (init s1 s2) = []"
  by (simp_all add: init_def)

lemma print_left_fields [simp]:
  "file1 (print_left m) = file1 m" "file2 (print_left m) = file2 m"
  "left (print_left m) = strip (left m)" "right (print_left m) = right m"
  "lock (print_left m) = lock m" "processed_c1 (print_left m) = processed_c1 m"
  "processed_c2 (print_left m) = processed_c2 m"
  "stdout (print_left m) = stdout m @ print (left m)"
  by (simp_all add: print_left_def)

lemma print_right_fields [simp]:
  "file1 (print_right m) = file1 m" "file2 (print_right m) = file2 m"
  "left (print_right m) = left m" "right (print_right m) = strip (right m)"
  "lock (print_right m) = lock m" "processed_c1 (print_right m) = processed_c1 m"
  "processed_c2 (print_right m) = processed_c2 m"
  "stdout (print_right m) = stdout m @ print (right m)"
  by (simp_all add: print_right_def)

lemma readline_left_fields:
  "readline_left m = Inr m' \<Longrightarrow>
     file2 m' = file2 m \<and> right m' = right m \<and> lock m' = lock m \<and>
     processed_c1 m' = processed_c1 m \<and> processed_c2 m' = processed_c2 m \<and>
     stdout m' = stdout m \<and> getline (file1 m) = Some (left m', file1 m')"
  by (auto simp: readline_left_def readline_def split: option.splits sum.splits prod.splits)

lemma readline_right_fields:
  "readline_right m = Inr m' \<Longrightarrow>
     file1 m' = file1 m \<and> left m' = left m \<and> lock m' = lock m \<and>
     processed_c1 m' = processed_c1 m \<and> processed_c2 m' = processed_c2 m \<and>
     stdout m' = stdout m \<and> getline (file2 m) = Some (right m', file2 m')"
  by (auto simp: readline_right_def readline_def split: option.splits sum.splits prod.splits)

lemma strcmp_less [simp]: "strcmp a b < 0 \<longleftrightarrow> a < b"
  by (simp add: strcmp_def)

lemma lines_of_None: "getline s = None \<Longrightarrow> lines_of s = []"
  by (simp add: lines_of.simps [of s])

lemma lines_of_Some: "getline s = Some (l, r) \<Longrightarrow> lines_of s = l # lines_of r"
  by (simp add: lines_of.simps [of s])

lemma lines_of_Nil [simp]: "lines_of [] = []"
  by (simp add: lines_of_None)

lemma lines_of_eq_Nil: "lines_of s = [] \<Longrightarrow> getline s = None"
  by (cases "getline s") (auto simp: lines_of.simps [of s])

lemma lines_of_eq_Cons:
  "lines_of s = l # ls \<Longrightarrow> \<exists>r. getline s = Some (l, r) \<and> lines_of r = ls"
  by (cases "getline s") (auto simp: lines_of.simps [of s])

lemma drop_eq_Cons:
  "drop k xs = y # ys \<Longrightarrow> k < length xs \<and> xs ! k = y \<and> drop (Suc k) xs = ys"
  by (metis Cons_nth_drop_Suc drop_all list.distinct(1) list.inject not_le)

lemma nat_succ: "0 \<le> p \<Longrightarrow> nat (p + 1) = Suc (nat p)"
  by simp

text \<open>What one iteration does, by lock state.\<close>

lemma loop_body_lock1_fail:
  "lock m = 1 \<Longrightarrow> getline (file2 m) = None \<Longrightarrow>
   loop_body m = Inl (error_exit (stdout m) ''Could not read line'')"
  by (simp add: loop_body_def read_next_def readline_right_def readline_def)

lemma loop_body_lock2_fail:
  "lock m = 2 \<Longrightarrow> getline (file1 m) = None \<Longrightarrow>
   loop_body m = Inl (error_exit (stdout m) ''Could not read line'')"
  by (simp add: loop_body_def read_next_def readline_left_def readline_def)

lemma loop_body_lock0_fail:
  "lock m = 0 \<Longrightarrow> getline (file1 m) = None \<or> getline (file2 m) = None \<Longrightarrow>
   loop_body m = Inl (error_exit (stdout m) ''Could not read line'')"
  by (auto simp: loop_body_def read_next_def readline_left_def readline_right_def readline_def
      split: option.splits)

lemma loop_body_lock1:
  "lock m = 1 \<Longrightarrow> getline (file2 m) = Some (y, r) \<Longrightarrow>
   \<exists>m'. loop_body m = Inr m' \<and> file1 m' = file1 m \<and> file2 m' = r \<and>
     (if left m < y
      then lock m' = 2 \<and> right m' = y \<and> stdout m' = stdout m @ print (left m) \<and>
           processed_c1 m' = processed_c1 m + 1 \<and> processed_c2 m' = processed_c2 m
      else lock m' = 1 \<and> left m' = left m \<and> stdout m' = stdout m @ print y \<and>
           processed_c1 m' = processed_c1 m \<and> processed_c2 m' = processed_c2 m + 1)"
  by (simp add: loop_body_def read_next_def readline_right_def readline_def cmp_lock_def)

lemma loop_body_lock2:
  "lock m = 2 \<Longrightarrow> getline (file1 m) = Some (x, r) \<Longrightarrow>
   \<exists>m'. loop_body m = Inr m' \<and> file1 m' = r \<and> file2 m' = file2 m \<and>
     (if x < right m
      then lock m' = 2 \<and> right m' = right m \<and> stdout m' = stdout m @ print x \<and>
           processed_c1 m' = processed_c1 m + 1 \<and> processed_c2 m' = processed_c2 m
      else lock m' = 1 \<and> left m' = x \<and> stdout m' = stdout m @ print (right m) \<and>
           processed_c1 m' = processed_c1 m \<and> processed_c2 m' = processed_c2 m + 1)"
  by (simp add: loop_body_def read_next_def readline_left_def readline_def cmp_lock_def)

lemma loop_body_lock0:
  "lock m = 0 \<Longrightarrow> getline (file1 m) = Some (x, r1) \<Longrightarrow> getline (file2 m) = Some (y, r2) \<Longrightarrow>
   \<exists>m'. loop_body m = Inr m' \<and> file1 m' = r1 \<and> file2 m' = r2 \<and>
     (if x < y
      then lock m' = 2 \<and> right m' = y \<and> stdout m' = stdout m @ print x \<and>
           processed_c1 m' = processed_c1 m + 1 \<and> processed_c2 m' = processed_c2 m
      else lock m' = 1 \<and> left m' = x \<and> stdout m' = stdout m @ print y \<and>
           processed_c1 m' = processed_c1 m \<and> processed_c2 m' = processed_c2 m + 1)"
  by (simp add: loop_body_def read_next_def readline_left_def readline_right_def readline_def
      cmp_lock_def)

lemma merge_trivial_general:
  "merge_trivial (init s1 s2) = finish (merge_general 1 1 (init s1 s2))"
proof (cases "readline_left (init s1 s2)")
  case (Inl e)
  then show ?thesis
    by (simp add: merge_trivial_def merge_general_def finish_def
        merge_loop.simps [of 1 1 "init s1 s2"] loop_body_def read_next_def)
next
  case (Inr m1)
  note m1 = this
  show ?thesis
  proof (cases "readline_right m1")
    case (Inl e)
    then show ?thesis using m1
      by (simp add: merge_trivial_def merge_general_def finish_def
          merge_loop.simps [of 1 1 "init s1 s2"] loop_body_def read_next_def)
  next
    case (Inr m2)
    have m2_fields: "lock m2 = 0" "processed_c1 m2 = 0" "processed_c2 m2 = 0"
      using readline_left_fields [OF m1] readline_right_fields [OF Inr] by simp_all
    have rn: "read_next (init s1 s2) = Inr m2"
      using m1 Inr by (simp add: read_next_def)
    show ?thesis
    proof (cases "strcmp (left m2) (right m2) < 0")
      case True
      define m3 where "m3 = (print_left m2)\<lparr>lock := 2, processed_c1 := processed_c1 m2 + 1\<rparr>"
      define m4 where "m4 = (print_right m3)\<lparr>processed_c2 := processed_c2 m3 + 1\<rparr>"
      have m3_fields: "lock m3 = 2" "processed_c1 m3 = 1" "processed_c2 m3 = 0"
        by (simp_all add: m3_def m2_fields)
      have m4_fields: "processed_c1 m4 = 1" "processed_c2 m4 = 1"
        "stdout m4 = stdout (print_right (print_left m2))"
        by (simp_all add: m4_def m3_def m2_fields)
      have "loop_body (init s1 s2) = Inr m3"
        using rn True m2_fields by (simp add: loop_body_def cmp_lock_def m3_def)
      then have "merge_loop 1 1 (init s1 s2) = merge_loop 1 1 m3"
        by (simp add: merge_loop.simps [of 1 1 "init s1 s2"])
      also have "\<dots> = Inr m3"
        by (simp add: merge_loop.simps [of 1 1 m3] m3_fields)
      finally have "merge_general 1 1 (init s1 s2) = Inr m4"
        by (simp add: merge_general_def print_locked_def drain_def m3_fields m4_fields)
          (simp add: m4_def m3_fields)
      then show ?thesis using m1 Inr True
        by (simp add: merge_trivial_def finish_def m4_fields)
    next
      case False
      define m3 where "m3 = (print_right m2)\<lparr>lock := 1, processed_c2 := processed_c2 m2 + 1\<rparr>"
      define m4 where "m4 = (print_left m3)\<lparr>processed_c1 := processed_c1 m3 + 1\<rparr>"
      have m3_fields: "lock m3 = 1" "processed_c1 m3 = 0" "processed_c2 m3 = 1"
        by (simp_all add: m3_def m2_fields)
      have m4_fields: "processed_c1 m4 = 1" "processed_c2 m4 = 1"
        "stdout m4 = stdout (print_left (print_right m2))"
        by (simp_all add: m4_def m3_def m2_fields)
      have "loop_body (init s1 s2) = Inr m3"
        using rn False m2_fields by (simp add: loop_body_def cmp_lock_def m3_def)
      then have "merge_loop 1 1 (init s1 s2) = merge_loop 1 1 m3"
        by (simp add: merge_loop.simps [of 1 1 "init s1 s2"])
      also have "\<dots> = Inr m3"
        by (simp add: merge_loop.simps [of 1 1 m3] m3_fields)
      finally have "merge_general 1 1 (init s1 s2) = Inr m4"
        by (simp add: merge_general_def print_locked_def drain_def m3_fields m4_fields)
          (simp add: m4_def m3_fields)
      then show ?thesis using m1 Inr False
        by (simp add: merge_trivial_def finish_def m4_fields)
    qed
  qed
qed

lemma pending_inv_init: "pending_inv s1 s2 c1 c2 (init s1 s2)"
  by (simp add: pending_inv_def)

text \<open>A line read by getline: not empty, no newline before its last byte.\<close>

lemma getline_line:
  "getline s = Some (l, r) \<Longrightarrow> l \<noteq> [] \<and> NL \<notin> set (butlast l)"
  by (induction s arbitrary: l r) (auto split: if_splits option.splits)

lemma strip_no_NL: "l \<noteq> [] \<Longrightarrow> NL \<notin> set (butlast l) \<Longrightarrow> NL \<notin> set (strip l)"
  by (cases l rule: rev_cases) (auto simp: strip_def)

lemma lines_of_line:
  "l \<in> set (lines_of s) \<Longrightarrow> l \<noteq> [] \<and> NL \<notin> set (butlast l)"
proof (induction s arbitrary: l rule: lines_of.induct)
  case (1 s)
  show ?case
  proof (cases "getline s")
    case None
    with 1(2) show ?thesis by (simp add: lines_of_None)
  next
    case (Some p)
    obtain l0 r where p: "p = (l0, r)" by (cases p)
    with Some have g: "getline s = Some (l0, r)" by simp
    from 1(2) have "l = l0 \<or> l \<in> set (lines_of r)" by (simp add: lines_of_Some [OF g])
    then show ?thesis
    proof
      assume "l = l0" with getline_line [OF g] show ?thesis by simp
    next
      assume "l \<in> set (lines_of r)"
      with 1(1) [OF g refl] show ?thesis by simp
    qed
  qed
qed

lemma print_line: "l \<in> set (lines_of s) \<Longrightarrow> \<exists>c. print l = c @ [NL] \<and> NL \<notin> set c"
  using lines_of_line [of l s] strip_no_NL [of l] by (auto simp: print_def)

lemma pending_inv_step_lock0:
  assumes inv: "pending_inv s1 s2 c1 c2 m" and l: "lock m = 0"
    and c: "1 \<le> c1" "1 \<le> c2" and b: "loop_body m = Inr m'"
  shows "pending_inv s1 s2 c1 c2 m' \<and> one_step m m'"
proof -
  from inv l have f: "processed_c1 m = 0" "processed_c2 m = 0"
    "lines_of (file1 m) = lines_of s1" "lines_of (file2 m) = lines_of s2"
    by (auto simp: pending_inv_def)
  from b l obtain x r1 where g1: "getline (file1 m) = Some (x, r1)"
    using loop_body_lock0_fail [of m] by (cases "getline (file1 m)") auto
  from b l obtain y r2 where g2: "getline (file2 m) = Some (y, r2)"
    using loop_body_lock0_fail [of m] by (cases "getline (file2 m)") auto
  have xs: "lines_of s1 = x # lines_of r1" and ys: "lines_of s2 = y # lines_of r2"
    using lines_of_Some [OF g1] lines_of_Some [OF g2] f by simp_all
  have px: "\<exists>c. print x = c @ [NL] \<and> NL \<notin> set c"
    by (rule print_line [of x s1]) (simp add: xs)
  have py: "\<exists>c. print y = c @ [NL] \<and> NL \<notin> set c"
    by (rule print_line [of y s2]) (simp add: ys)
  from loop_body_lock0 [OF l g1 g2] b px py show ?thesis
    using c f xs ys by (auto simp: pending_inv_def one_step_def split: if_splits)
qed

lemma pending_inv_step_lock1:
  assumes inv: "pending_inv s1 s2 c1 c2 m" and l: "lock m = 1"
    and g: "processed_c2 m \<noteq> c2" and b: "loop_body m = Inr m'"
  shows "pending_inv s1 s2 c1 c2 m' \<and> one_step m m'"
proof -
  from inv l have f: "0 \<le> processed_c1 m" "processed_c1 m < c1"
    "1 \<le> processed_c2 m" "processed_c2 m \<le> c2"
    "nat (processed_c1 m) < length (lines_of s1)"
    "left m = lines_of s1 ! nat (processed_c1 m)"
    "lines_of (file1 m) = drop (Suc (nat (processed_c1 m))) (lines_of s1)"
    "lines_of (file2 m) = drop (nat (processed_c2 m)) (lines_of s2)"
    by (auto simp: pending_inv_def)
  from b l obtain y r where g2: "getline (file2 m) = Some (y, r)"
    using loop_body_lock1_fail [of m] by (cases "getline (file2 m)") auto
  from lines_of_Some [OF g2] f(8)
  have d: "drop (nat (processed_c2 m)) (lines_of s2) = y # lines_of r" by simp
  note d' = drop_eq_Cons [OF d]
  have py: "\<exists>c. print y = c @ [NL] \<and> NL \<notin> set c"
    by (rule print_line [of y "file2 m"]) (simp add: lines_of_Some [OF g2])
  have px: "\<exists>c. print (left m) = c @ [NL] \<and> NL \<notin> set c"
    by (rule print_line [of _ s1]) (simp add: f)
  from loop_body_lock1 [OF l g2] b px py show ?thesis
    using g l f d' by (auto simp: pending_inv_def one_step_def nat_succ split: if_splits)
qed

lemma pending_inv_step_lock2:
  assumes inv: "pending_inv s1 s2 c1 c2 m" and l: "lock m = 2"
    and g: "processed_c1 m \<noteq> c1" and b: "loop_body m = Inr m'"
  shows "pending_inv s1 s2 c1 c2 m' \<and> one_step m m'"
proof -
  from inv l have f: "0 \<le> processed_c2 m" "processed_c2 m < c2"
    "1 \<le> processed_c1 m" "processed_c1 m \<le> c1"
    "nat (processed_c2 m) < length (lines_of s2)"
    "right m = lines_of s2 ! nat (processed_c2 m)"
    "lines_of (file1 m) = drop (nat (processed_c1 m)) (lines_of s1)"
    "lines_of (file2 m) = drop (Suc (nat (processed_c2 m))) (lines_of s2)"
    by (auto simp: pending_inv_def)
  from b l obtain x r where g1: "getline (file1 m) = Some (x, r)"
    using loop_body_lock2_fail [of m] by (cases "getline (file1 m)") auto
  from lines_of_Some [OF g1] f(7)
  have d: "drop (nat (processed_c1 m)) (lines_of s1) = x # lines_of r" by simp
  note d' = drop_eq_Cons [OF d]
  have px: "\<exists>c. print x = c @ [NL] \<and> NL \<notin> set c"
    by (rule print_line [of x "file1 m"]) (simp add: lines_of_Some [OF g1])
  have py: "\<exists>c. print (right m) = c @ [NL] \<and> NL \<notin> set c"
    by (rule print_line [of _ s2]) (simp add: f)
  from loop_body_lock2 [OF l g1] b px py show ?thesis
    using g l f d' by (auto simp: pending_inv_def one_step_def nat_succ split: if_splits)
qed

lemma pending_inv_lock: "pending_inv s1 s2 c1 c2 m \<Longrightarrow> lock m = 0 \<or> lock m = 1 \<or> lock m = 2"
  by (auto simp: pending_inv_def)

lemma pending_inv_step:
  assumes "pending_inv s1 s2 c1 c2 m" "1 \<le> c1" "1 \<le> c2"
    and "processed_c1 m \<noteq> c1 \<and> processed_c2 m \<noteq> c2" and "loop_body m = Inr m'"
  shows "pending_inv s1 s2 c1 c2 m' \<and> one_step m m'"
  using assms pending_inv_lock [of s1 s2 c1 c2 m]
    pending_inv_step_lock0 [of s1 s2 c1 c2 m m']
    pending_inv_step_lock1 [of s1 s2 c1 c2 m m']
    pending_inv_step_lock2 [of s1 s2 c1 c2 m m'] by blast

lemma merge_loop_continue:
  "processed_c1 m \<noteq> c1 \<and> processed_c2 m \<noteq> c2 \<Longrightarrow> loop_body m = Inr m' \<Longrightarrow>
   merge_loop c1 c2 m = merge_loop c1 c2 m'"
  by (simp add: merge_loop.simps [of c1 c2 m])

lemma merge_loop_fail:
  "processed_c1 m \<noteq> c1 \<and> processed_c2 m \<noteq> c2 \<Longrightarrow> loop_body m = Inl e \<Longrightarrow>
   merge_loop c1 c2 m = Inl e"
  by (simp add: merge_loop.simps [of c1 c2 m])

lemma merge_loop_exit:
  "\<not> (processed_c1 m \<noteq> c1 \<and> processed_c2 m \<noteq> c2) \<Longrightarrow> merge_loop c1 c2 m = Inr m"
  by (auto simp: merge_loop.simps [of c1 c2 m])

lemma merge_loop_inv:
  "pending_inv s1 s2 c1 c2 m \<Longrightarrow> 1 \<le> c1 \<Longrightarrow> 1 \<le> c2 \<Longrightarrow> merge_loop c1 c2 m = Inr m' \<Longrightarrow>
   pending_inv s1 s2 c1 c2 m' \<and> \<not> (processed_c1 m' \<noteq> c1 \<and> processed_c2 m' \<noteq> c2)"
proof (induction c1 c2 m rule: merge_loop.induct)
  case (1 c1 c2 m)
  show ?case
  proof (cases "processed_c1 m \<noteq> c1 \<and> processed_c2 m \<noteq> c2")
    case False
    with "1.prems" show ?thesis by (simp add: merge_loop_exit)
  next
    case True
    show ?thesis
    proof (cases "loop_body m")
      case (Inl e)
      with True "1.prems" show ?thesis by (simp add: merge_loop_fail)
    next
      case (Inr m1)
      have "pending_inv s1 s2 c1 c2 m1"
        using pending_inv_step [OF "1.prems"(1-3) True Inr] by simp
      moreover have "merge_loop c1 c2 m1 = Inr m'"
        using "1.prems"(4) merge_loop_continue [OF True Inr] by simp
      ultimately show ?thesis
        using "1.IH" [OF True Inr] "1.prems"(2,3) by simp
    qed
  qed
qed

lemma pending_inv_exit:
  assumes "pending_inv s1 s2 c1 c2 m" "1 \<le> c1" "1 \<le> c2"
    and "\<not> (processed_c1 m \<noteq> c1 \<and> processed_c2 m \<noteq> c2)"
  shows "lock m = 1 \<and> processed_c2 m = c2 \<and> processed_c1 m < c1 \<or>
         lock m = 2 \<and> processed_c1 m = c1 \<and> processed_c2 m < c2"
  using assms by (auto simp: pending_inv_def)

lemma pending_inv_bounds:
  assumes "pending_inv s1 s2 c1 c2 m" "1 \<le> c1" "1 \<le> c2"
  shows "processed_c1 m \<le> c1 \<and> processed_c2 m \<le> c2 \<and>
         0 \<le> processed_c1 m \<and> 0 \<le> processed_c2 m \<and>
         processed_c1 m + processed_c2 m \<le> c1 + c2 - 1"
  using assms by (auto simp: pending_inv_def)

lemma pending_inv_progress:
  assumes inv: "pending_inv s1 s2 c1 c2 m" and c: "1 \<le> c1" "1 \<le> c2"
    and len: "c1 \<le> int (length (lines_of s1))" "c2 \<le> int (length (lines_of s2))"
    and g: "processed_c1 m \<noteq> c1 \<and> processed_c2 m \<noteq> c2"
  shows "\<exists>m'. loop_body m = Inr m'"
proof -
  consider "lock m = 0" | "lock m = 1" | "lock m = 2"
    using pending_inv_lock [OF inv] by blast
  then show ?thesis
  proof cases
    case 1
    with inv have f: "lines_of (file1 m) = lines_of s1" "lines_of (file2 m) = lines_of s2"
      by (auto simp: pending_inv_def)
    from c len obtain x xs y ys where "lines_of s1 = x # xs" "lines_of s2 = y # ys"
      by (cases "lines_of s1"; cases "lines_of s2") auto
    with f obtain r1 r2 where "getline (file1 m) = Some (x, r1)" "getline (file2 m) = Some (y, r2)"
      using lines_of_eq_Cons [of "file1 m" x xs] lines_of_eq_Cons [of "file2 m" y ys] by auto
    from loop_body_lock0 [OF 1 this] show ?thesis by blast
  next
    case 2
    with inv g have f: "0 \<le> processed_c2 m" "processed_c2 m < c2"
      "lines_of (file2 m) = drop (nat (processed_c2 m)) (lines_of s2)"
      by (auto simp: pending_inv_def)
    with len have "nat (processed_c2 m) < length (lines_of s2)" by linarith
    then have "lines_of (file2 m) \<noteq> []" using f(3) by simp
    then obtain y ys where "lines_of (file2 m) = y # ys"
      by (cases "lines_of (file2 m)") auto
    then obtain r where "getline (file2 m) = Some (y, r)"
      using lines_of_eq_Cons by blast
    from loop_body_lock1 [OF 2 this] show ?thesis by blast
  next
    case 3
    with inv g have f: "0 \<le> processed_c1 m" "processed_c1 m < c1"
      "lines_of (file1 m) = drop (nat (processed_c1 m)) (lines_of s1)"
      by (auto simp: pending_inv_def)
    with len have "nat (processed_c1 m) < length (lines_of s1)" by linarith
    then have "lines_of (file1 m) \<noteq> []" using f(3) by simp
    then obtain x xs where "lines_of (file1 m) = x # xs"
      by (cases "lines_of (file1 m)") auto
    then obtain r where "getline (file1 m) = Some (x, r)"
      using lines_of_eq_Cons by blast
    from loop_body_lock2 [OF 3 this] show ?thesis by blast
  qed
qed

lemma loop_reach_inv:
  assumes "loop_reach c1 c2 (init s1 s2) n m" "1 \<le> c1" "1 \<le> c2"
  shows "pending_inv s1 s2 c1 c2 m \<and> processed_c1 m + processed_c2 m = int n"
  using assms
proof (induction rule: loop_reach.induct)
  case start
  show ?case by (simp add: pending_inv_init)
next
  case (iter n m m')
  then have inv: "pending_inv s1 s2 c1 c2 m" and n: "processed_c1 m + processed_c2 m = int n"
    by simp_all
  from pending_inv_step [OF inv iter.prems iter.hyps(2,3)] n show ?case
    by (auto simp: one_step_def)
qed

lemma merge_loop_reach:
  assumes "loop_reach c1 c2 m0 n m" "pending_inv s1 s2 c1 c2 m" "1 \<le> c1" "1 \<le> c2"
    "c1 \<le> int (length (lines_of s1))" "c2 \<le> int (length (lines_of s2))"
  shows "\<exists>n' m'. loop_reach c1 c2 m0 n' m' \<and> merge_loop c1 c2 m = Inr m'"
  using assms
proof (induction c1 c2 m arbitrary: n rule: merge_loop.induct)
  case (1 c1 c2 m)
  show ?case
  proof (cases "processed_c1 m \<noteq> c1 \<and> processed_c2 m \<noteq> c2")
    case False
    with "1.prems"(1) show ?thesis by (auto simp: merge_loop_exit)
  next
    case True
    from pending_inv_progress [OF "1.prems"(2-6) True]
    obtain m1 where b: "loop_body m = Inr m1" by blast
    have r: "loop_reach c1 c2 m0 (Suc n) m1"
      by (rule loop_reach.iter [OF "1.prems"(1) True b])
    have inv: "pending_inv s1 s2 c1 c2 m1"
      using pending_inv_step [OF "1.prems"(2-4) True b] by simp
    from "1.IH" [OF True b r inv "1.prems"(3-6)] merge_loop_continue [OF True b]
    show ?thesis by simp
  qed
qed

subsection \<open>The merger against the merge of the lines\<close>

lemma merge_lines_Nil2 [simp]: "merge_lines xs [] = xs"
  by (cases xs) simp_all

lemma readline_left_Some:
  "getline (file1 m) = Some (l, r) \<Longrightarrow> readline_left m = Inr (m\<lparr>left := l, file1 := r\<rparr>)"
  by (simp add: readline_left_def readline_def)

lemma readline_right_Some:
  "getline (file2 m) = Some (l, r) \<Longrightarrow> readline_right m = Inr (m\<lparr>right := l, file2 := r\<rparr>)"
  by (simp add: readline_right_def readline_def)

lemma readline_left_None:
  "getline (file1 m) = None \<Longrightarrow>
   readline_left m = Inl (error_exit (stdout m) ''Could not read line'')"
  by (simp add: readline_left_def readline_def)

lemma readline_right_None:
  "getline (file2 m) = None \<Longrightarrow>
   readline_right m = Inl (error_exit (stdout m) ''Could not read line'')"
  by (simp add: readline_right_def readline_def)

lemma drain_left_ok:
  "lines_of (file1 m) = ls \<Longrightarrow> c - i = int (length ls) \<Longrightarrow>
   \<exists>m'. drain_left i c m = Inr m' \<and> stdout m' = stdout m @ concat (map print ls)"
proof (induction ls arbitrary: i m)
  case Nil
  then have "\<not> i < c" by simp
  then show ?case by (subst drain_left.simps) simp
next
  case (Cons l ls)
  from lines_of_eq_Cons [OF Cons.prems(1)] obtain r
    where g: "getline (file1 m) = Some (l, r)" and r: "lines_of r = ls" by blast
  let ?m1 = "print_left (m\<lparr>left := l, file1 := r\<rparr>)"
  have "drain_left i c m = drain_left (i + 1) c ?m1"
    using Cons.prems(2) readline_left_Some [OF g] by (simp add: drain_left.simps [of i c m])
  moreover have "lines_of (file1 ?m1) = ls" "c - (i + 1) = int (length ls)"
    using r Cons.prems(2) by simp_all
  from Cons.IH [OF this]
  have "\<exists>m'. drain_left (i + 1) c ?m1 = Inr m' \<and>
          stdout m' = stdout m @ concat (map print (l # ls))" by simp
  ultimately show ?case by simp
qed

lemma drain_right_ok:
  "lines_of (file2 m) = ls \<Longrightarrow> c - i = int (length ls) \<Longrightarrow>
   \<exists>m'. drain_right i c m = Inr m' \<and> stdout m' = stdout m @ concat (map print ls)"
proof (induction ls arbitrary: i m)
  case Nil
  then have "\<not> i < c" by simp
  then show ?case by (subst drain_right.simps) simp
next
  case (Cons l ls)
  from lines_of_eq_Cons [OF Cons.prems(1)] obtain r
    where g: "getline (file2 m) = Some (l, r)" and r: "lines_of r = ls" by blast
  let ?m1 = "print_right (m\<lparr>right := l, file2 := r\<rparr>)"
  have "drain_right i c m = drain_right (i + 1) c ?m1"
    using Cons.prems(2) readline_right_Some [OF g] by (simp add: drain_right.simps [of i c m])
  moreover have "lines_of (file2 ?m1) = ls" "c - (i + 1) = int (length ls)"
    using r Cons.prems(2) by simp_all
  from Cons.IH [OF this]
  have "\<exists>m'. drain_right (i + 1) c ?m1 = Inr m' \<and>
          stdout m' = stdout m @ concat (map print (l # ls))" by simp
  ultimately show ?case by simp
qed

lemma merge_general_continue:
  "processed_c1 m \<noteq> c1 \<and> processed_c2 m \<noteq> c2 \<Longrightarrow> loop_body m = Inr m' \<Longrightarrow>
   merge_general c1 c2 m = merge_general c1 c2 m'"
  by (simp add: merge_general_def merge_loop_continue)

lemma merge_general_fail:
  "processed_c1 m \<noteq> c1 \<and> processed_c2 m \<noteq> c2 \<Longrightarrow> loop_body m = Inl e \<Longrightarrow>
   merge_general c1 c2 m = Inl e"
  by (simp add: merge_general_def merge_loop_fail)

lemma merge_general_exit1:
  "lock m = 1 \<Longrightarrow> processed_c2 m = c2 \<Longrightarrow>
   merge_general c1 c2 m =
     drain_left (processed_c1 m + 1) c1 ((print_left m)\<lparr>processed_c1 := processed_c1 m + 1\<rparr>)"
  by (simp add: merge_general_def merge_loop_exit print_locked_def drain_def
      drain_left.simps [of c1 c1])

lemma merge_general_exit2:
  "lock m = 2 \<Longrightarrow> processed_c1 m = c1 \<Longrightarrow>
   merge_general c1 c2 m =
     drain_right (processed_c2 m + 1) c2 ((print_right m)\<lparr>processed_c2 := processed_c2 m + 1\<rparr>)"
  by (simp add: merge_general_def merge_loop_exit print_locked_def drain_def
      drain_right.simps [of c2 c2])

lemma merge_general_sim:
  "(lock m = 1 \<longrightarrow>
      c1 - processed_c1 m - 1 = int (length (lines_of (file1 m))) \<longrightarrow>
      c2 - processed_c2 m = int (length (lines_of (file2 m))) \<longrightarrow>
      (\<exists>m'. merge_general c1 c2 m = Inr m' \<and>
         stdout m' = stdout m @
           concat (map print (merge_lines (left m # lines_of (file1 m)) (lines_of (file2 m)))))) \<and>
   (lock m = 2 \<longrightarrow>
      c1 - processed_c1 m = int (length (lines_of (file1 m))) \<longrightarrow>
      c2 - processed_c2 m - 1 = int (length (lines_of (file2 m))) \<longrightarrow>
      (\<exists>m'. merge_general c1 c2 m = Inr m' \<and>
         stdout m' = stdout m @
           concat (map print (merge_lines (lines_of (file1 m)) (right m # lines_of (file2 m))))))"
proof (induction c1 c2 m rule: merge_loop.induct)
  case (1 c1 c2 m)
  have left_locked: "\<exists>m'. merge_general c1 c2 m = Inr m' \<and>
         stdout m' = stdout m @
           concat (map print (merge_lines (left m # lines_of (file1 m)) (lines_of (file2 m))))"
    if l: "lock m = 1"
      and n1: "c1 - processed_c1 m - 1 = int (length (lines_of (file1 m)))"
      and n2: "c2 - processed_c2 m = int (length (lines_of (file2 m)))"
  proof (cases "lines_of (file2 m)")
    case Nil
    with n2 have e: "processed_c2 m = c2" by simp
    let ?m2 = "(print_left m)\<lparr>processed_c1 := processed_c1 m + 1\<rparr>"
    have "lines_of (file1 ?m2) = lines_of (file1 m)"
      "c1 - (processed_c1 m + 1) = int (length (lines_of (file1 m)))"
      using n1 by simp_all
    from drain_left_ok [OF this] merge_general_exit1 [OF l e] Nil
    show ?thesis by simp
  next
    case (Cons y ys)
    from lines_of_eq_Cons [OF Cons] obtain r
      where g: "getline (file2 m) = Some (y, r)" and r: "lines_of r = ys" by blast
    have guard: "processed_c1 m \<noteq> c1 \<and> processed_c2 m \<noteq> c2"
      using n1 n2 Cons by auto
    from loop_body_lock1 [OF l g] obtain m1 where b: "loop_body m = Inr m1"
      and f: "file1 m1 = file1 m" "file2 m1 = r"
      and c: "if left m < y
        then lock m1 = 2 \<and> right m1 = y \<and> stdout m1 = stdout m @ print (left m) \<and>
             processed_c1 m1 = processed_c1 m + 1 \<and> processed_c2 m1 = processed_c2 m
        else lock m1 = 1 \<and> left m1 = left m \<and> stdout m1 = stdout m @ print y \<and>
             processed_c1 m1 = processed_c1 m \<and> processed_c2 m1 = processed_c2 m + 1"
      by blast
    note ih = "1.IH" [OF guard b]
    note cont = merge_general_continue [OF guard b]
    show ?thesis
    proof (cases "left m < y")
      case True
      with c have c': "lock m1 = 2" "right m1 = y" "stdout m1 = stdout m @ print (left m)"
        "processed_c1 m1 = processed_c1 m + 1" "processed_c2 m1 = processed_c2 m" by simp_all
      have "c1 - processed_c1 m1 = int (length (lines_of (file1 m1)))"
        "c2 - processed_c2 m1 - 1 = int (length (lines_of (file2 m1)))"
        using n1 n2 Cons r f c' by simp_all
      with ih c'(1) obtain m' where "merge_general c1 c2 m1 = Inr m'"
        "stdout m' = stdout m1 @
           concat (map print (merge_lines (lines_of (file1 m1)) (right m1 # lines_of (file2 m1))))"
        by blast
      then show ?thesis using cont True Cons r f c' by simp
    next
      case False
      with c have c': "lock m1 = 1" "left m1 = left m" "stdout m1 = stdout m @ print y"
        "processed_c1 m1 = processed_c1 m" "processed_c2 m1 = processed_c2 m + 1" by simp_all
      have "c1 - processed_c1 m1 - 1 = int (length (lines_of (file1 m1)))"
        "c2 - processed_c2 m1 = int (length (lines_of (file2 m1)))"
        using n1 n2 Cons r f c' by simp_all
      with ih c'(1) obtain m' where "merge_general c1 c2 m1 = Inr m'"
        "stdout m' = stdout m1 @
           concat (map print (merge_lines (left m1 # lines_of (file1 m1)) (lines_of (file2 m1))))"
        by blast
      then show ?thesis using cont False Cons r f c' by simp
    qed
  qed
  have right_locked: "\<exists>m'. merge_general c1 c2 m = Inr m' \<and>
         stdout m' = stdout m @
           concat (map print (merge_lines (lines_of (file1 m)) (right m # lines_of (file2 m))))"
    if l: "lock m = 2"
      and n1: "c1 - processed_c1 m = int (length (lines_of (file1 m)))"
      and n2: "c2 - processed_c2 m - 1 = int (length (lines_of (file2 m)))"
  proof (cases "lines_of (file1 m)")
    case Nil
    with n1 have e: "processed_c1 m = c1" by simp
    let ?m2 = "(print_right m)\<lparr>processed_c2 := processed_c2 m + 1\<rparr>"
    have "lines_of (file2 ?m2) = lines_of (file2 m)"
      "c2 - (processed_c2 m + 1) = int (length (lines_of (file2 m)))"
      using n2 by simp_all
    from drain_right_ok [OF this] merge_general_exit2 [OF l e] Nil
    show ?thesis by simp
  next
    case (Cons x xs)
    from lines_of_eq_Cons [OF Cons] obtain r
      where g: "getline (file1 m) = Some (x, r)" and r: "lines_of r = xs" by blast
    have guard: "processed_c1 m \<noteq> c1 \<and> processed_c2 m \<noteq> c2"
      using n1 n2 Cons by auto
    from loop_body_lock2 [OF l g] obtain m1 where b: "loop_body m = Inr m1"
      and f: "file1 m1 = r" "file2 m1 = file2 m"
      and c: "if x < right m
        then lock m1 = 2 \<and> right m1 = right m \<and> stdout m1 = stdout m @ print x \<and>
             processed_c1 m1 = processed_c1 m + 1 \<and> processed_c2 m1 = processed_c2 m
        else lock m1 = 1 \<and> left m1 = x \<and> stdout m1 = stdout m @ print (right m) \<and>
             processed_c1 m1 = processed_c1 m \<and> processed_c2 m1 = processed_c2 m + 1"
      by blast
    note ih = "1.IH" [OF guard b]
    note cont = merge_general_continue [OF guard b]
    show ?thesis
    proof (cases "x < right m")
      case True
      with c have c': "lock m1 = 2" "right m1 = right m" "stdout m1 = stdout m @ print x"
        "processed_c1 m1 = processed_c1 m + 1" "processed_c2 m1 = processed_c2 m" by simp_all
      have "c1 - processed_c1 m1 = int (length (lines_of (file1 m1)))"
        "c2 - processed_c2 m1 - 1 = int (length (lines_of (file2 m1)))"
        using n1 n2 Cons r f c' by simp_all
      with ih c'(1) obtain m' where "merge_general c1 c2 m1 = Inr m'"
        "stdout m' = stdout m1 @
           concat (map print (merge_lines (lines_of (file1 m1)) (right m1 # lines_of (file2 m1))))"
        by blast
      then show ?thesis using cont True Cons r f c' by simp
    next
      case False
      with c have c': "lock m1 = 1" "left m1 = x" "stdout m1 = stdout m @ print (right m)"
        "processed_c1 m1 = processed_c1 m" "processed_c2 m1 = processed_c2 m + 1" by simp_all
      have "c1 - processed_c1 m1 - 1 = int (length (lines_of (file1 m1)))"
        "c2 - processed_c2 m1 = int (length (lines_of (file2 m1)))"
        using n1 n2 Cons r f c' by simp_all
      with ih c'(1) obtain m' where "merge_general c1 c2 m1 = Inr m'"
        "stdout m' = stdout m1 @
           concat (map print (merge_lines (left m1 # lines_of (file1 m1)) (lines_of (file2 m1))))"
        by blast
      then show ?thesis using cont False Cons r f c' by simp
    qed
  qed
  from left_locked right_locked show ?case by blast
qed

lemma merge_general_init:
  assumes n1: "c1 = int (length (lines_of s1))" and n2: "c2 = int (length (lines_of s2))"
    and c: "1 \<le> c1" "1 \<le> c2"
  shows "\<exists>m'. merge_general c1 c2 (init s1 s2) = Inr m' \<and>
           stdout m' = concat (map print (merge_lines (lines_of s1) (lines_of s2)))"
proof -
  let ?m = "init s1 s2"
  from c n1 n2 obtain x xs y ys where xs: "lines_of s1 = x # xs" and ys: "lines_of s2 = y # ys"
    by (cases "lines_of s1"; cases "lines_of s2") auto
  from lines_of_eq_Cons [OF xs] obtain r1
    where g1: "getline (file1 ?m) = Some (x, r1)" and r1: "lines_of r1 = xs" by auto
  from lines_of_eq_Cons [OF ys] obtain r2
    where g2: "getline (file2 ?m) = Some (y, r2)" and r2: "lines_of r2 = ys" by auto
  have guard: "processed_c1 ?m \<noteq> c1 \<and> processed_c2 ?m \<noteq> c2" using c by simp
  have l: "lock ?m = 0" by simp
  from loop_body_lock0 [OF l g1 g2] obtain m1 where b: "loop_body ?m = Inr m1"
    and f: "file1 m1 = r1" "file2 m1 = r2"
    and cs: "if x < y
      then lock m1 = 2 \<and> right m1 = y \<and> stdout m1 = stdout ?m @ print x \<and>
           processed_c1 m1 = processed_c1 ?m + 1 \<and> processed_c2 m1 = processed_c2 ?m
      else lock m1 = 1 \<and> left m1 = x \<and> stdout m1 = stdout ?m @ print y \<and>
           processed_c1 m1 = processed_c1 ?m \<and> processed_c2 m1 = processed_c2 ?m + 1"
    by blast
  note cont = merge_general_continue [OF guard b]
  show ?thesis
  proof (cases "x < y")
    case True
    with cs have c': "lock m1 = 2" "right m1 = y" "stdout m1 = print x"
      "processed_c1 m1 = 1" "processed_c2 m1 = 0" by simp_all
    have "c1 - processed_c1 m1 = int (length (lines_of (file1 m1)))"
      "c2 - processed_c2 m1 - 1 = int (length (lines_of (file2 m1)))"
      using n1 n2 xs ys r1 r2 f c' by simp_all
    with merge_general_sim [of m1 c1 c2] c'(1) obtain m' where "merge_general c1 c2 m1 = Inr m'"
      "stdout m' = stdout m1 @
         concat (map print (merge_lines (lines_of (file1 m1)) (right m1 # lines_of (file2 m1))))"
      by blast
    then show ?thesis using cont True xs ys r1 r2 f c' by simp
  next
    case False
    with cs have c': "lock m1 = 1" "left m1 = x" "stdout m1 = print y"
      "processed_c1 m1 = 0" "processed_c2 m1 = 1" by simp_all
    have "c1 - processed_c1 m1 - 1 = int (length (lines_of (file1 m1)))"
      "c2 - processed_c2 m1 = int (length (lines_of (file2 m1)))"
      using n1 n2 xs ys r1 r2 f c' by simp_all
    with merge_general_sim [of m1 c1 c2] c'(1) obtain m' where "merge_general c1 c2 m1 = Inr m'"
      "stdout m' = stdout m1 @
         concat (map print (merge_lines (left m1 # lines_of (file1 m1)) (lines_of (file2 m1))))"
      by blast
    then show ?thesis using cont False xs ys r1 r2 f c' by simp
  qed
qed

lemma run_merger_lines:
  assumes "c1 = int (length (lines_of s1))" "c2 = int (length (lines_of s2))" "1 \<le> c1" "1 \<le> c2"
  shows "run_merger s1 s2 c1 c2
           = exit_success (concat (map print (merge_lines (lines_of s1) (lines_of s2))))"
proof -
  from merge_general_init [OF assms] obtain m'
    where m': "merge_general c1 c2 (init s1 s2) = Inr m'"
      "stdout m' = concat (map print (merge_lines (lines_of s1) (lines_of s2)))" by blast
  show ?thesis
  proof (cases "c1 = 1 \<and> c2 = 1")
    case True
    then show ?thesis using m' merge_trivial_general [of s1 s2]
      by (simp add: run_merger_def mergesort_def finish_def)
  next
    case False
    then show ?thesis using m'
      by (auto simp: run_merger_def mergesort_def finish_def)
  qed
qed

lemma set_merge_lines [simp]: "set (merge_lines xs ys) = set xs \<union> set ys"
  by (induction xs ys rule: merge_lines.induct) auto

lemma mset_merge_lines [simp]: "mset (merge_lines xs ys) = mset xs + mset ys"
  by (induction xs ys rule: merge_lines.induct) auto

lemma sorted_map_merge_lines:
  fixes f :: "string \<Rightarrow> 'b::linorder"
  assumes "sorted (map f xs)" "sorted (map f ys)"
    and "\<forall>x\<in>set xs. \<forall>y\<in>set ys. (x < y \<longrightarrow> f x \<le> f y) \<and> (\<not> x < y \<longrightarrow> f y \<le> f x)"
  shows "sorted (map f (merge_lines xs ys))"
  using assms
proof (induction xs ys rule: merge_lines.induct)
  case (1 ys)
  then show ?case by simp
next
  case (2 x xs)
  then show ?case by simp
next
  case (3 x xs y ys)
  show ?case
  proof (cases "x < y")
    case True
    have "sorted (map f (merge_lines xs (y # ys)))"
      using "3.IH"(1) True "3.prems" by simp
    moreover have "\<forall>z\<in>set xs \<union> set (y # ys). f x \<le> f z"
      using "3.prems" True by auto
    ultimately show ?thesis using True by simp
  next
    case False
    have "sorted (map f (merge_lines (x # xs) ys))"
      using "3.IH"(2) False "3.prems" by simp
    moreover have "\<forall>z\<in>set (x # xs) \<union> set ys. f y \<le> f z"
      using "3.prems" False by auto
    ultimately show ?thesis using False by simp
  qed
qed

text \<open>Reading back what print wrote.\<close>

lemma getline_append_NL:
  "NL \<notin> set c \<Longrightarrow> getline (c @ NL # rest) = Some (c @ [NL], rest)"
  by (induction c) auto

lemma lines_of_print:
  "NL \<notin> set (strip l) \<Longrightarrow> lines_of (print l @ rest) = print l # lines_of rest"
  using getline_append_NL [of "strip l" rest] by (simp add: print_def lines_of_Some)

lemma lines_of_concat_print:
  "\<forall>l\<in>set ls. l \<noteq> [] \<and> NL \<notin> set (butlast l) \<Longrightarrow>
   lines_of (concat (map print ls)) = map print ls"
  by (induction ls) (simp_all add: lines_of_print strip_no_NL)

lemma strip_print [simp]: "strip (print l) = strip l"
  by (simp add: print_def strip_def)

lemma print_terminated: "l \<noteq> [] \<Longrightarrow> last l = NL \<Longrightarrow> print l = l"
  by (cases l rule: rev_cases) (simp_all add: print_def strip_def)

lemma getline_None: "getline s = None \<longleftrightarrow> s = []"
  by (cases s) (auto split: option.splits)

lemma getline_split:
  "getline s = Some (l, r) \<Longrightarrow> s = l @ r \<and> l \<noteq> [] \<and> (last l = NL \<or> r = [])"
  by (induction s arbitrary: l r) (auto simp: getline_None split: if_splits option.splits)

lemma terminated_lines:
  "terminated s \<Longrightarrow> l \<in> set (lines_of s) \<Longrightarrow> l \<noteq> [] \<and> last l = NL"
proof (induction s arbitrary: l rule: lines_of.induct)
  case (1 s)
  show ?case
  proof (cases "getline s")
    case None
    with "1.prems" show ?thesis by (simp add: lines_of_None)
  next
    case (Some p)
    obtain l0 r where g: "getline s = Some (l0, r)" using Some by (cases p) auto
    note sp = getline_split [OF g]
    from "1.prems"(2) have "l = l0 \<or> l \<in> set (lines_of r)" by (simp add: lines_of_Some [OF g])
    then show ?thesis
    proof
      assume "l = l0"
      with sp "1.prems"(1) show ?thesis by (auto simp: terminated_def)
    next
      assume a: "l \<in> set (lines_of r)"
      have "terminated r" using sp "1.prems"(1) by (auto simp: terminated_def last_append split: if_splits)
      from "1.IH" [OF g refl this a] show ?thesis .
    qed
  qed
qed

text \<open>The order strcmp sees against the order of the contents.\<close>

lemma less_with_terminator:
  "A < B \<Longrightarrow> \<forall>c\<in>set B. NL < c \<Longrightarrow> a = A \<or> a = A @ [NL] \<Longrightarrow> b = B \<or> b = B @ [NL] \<Longrightarrow>
   a < (b :: string)"
proof (induction A arbitrary: B a b)
  case Nil
  then show ?case by (cases B) auto
next
  case (Cons x A)
  then show ?case by (cases B) auto
qed

lemma strip_cases: "l = strip l \<or> l = strip l @ [NL]"
  by (cases l rule: rev_cases) (auto simp: strip_def)

lemma set_strip: "set (strip l) \<subseteq> set l"
  by (auto simp: strip_def dest: in_set_butlastD)

lemma getline_set: "getline s = Some (l, r) \<Longrightarrow> set l \<subseteq> set s \<and> set r \<subseteq> set s"
  using getline_split [of s l r] by auto

lemma lines_of_set: "l \<in> set (lines_of s) \<Longrightarrow> set l \<subseteq> set s"
proof (induction s arbitrary: l rule: lines_of.induct)
  case (1 s)
  show ?case
  proof (cases "getline s")
    case None
    with "1.prems" show ?thesis by (simp add: lines_of_None)
  next
    case (Some p)
    obtain l0 r where g: "getline s = Some (l0, r)" using Some by (cases p) auto
    from "1.prems" have "l = l0 \<or> l \<in> set (lines_of r)" by (simp add: lines_of_Some [OF g])
    then show ?thesis using getline_set [OF g] "1.IH" [OF g refl] by blast
  qed
qed

lemma plain_line_content:
  assumes "plain s" "l \<in> set (lines_of s)"
  shows "\<forall>c\<in>set (strip l). NL < c"
proof
  fix c assume c: "c \<in> set (strip l)"
  from lines_of_line [OF assms(2)] have "NL \<notin> set (strip l)" by (simp add: strip_no_NL)
  with c have "c \<noteq> NL" by auto
  moreover have "NL \<le> c" using c set_strip [of l] lines_of_set [OF assms(2)] assms(1)
    by (auto simp: plain_def)
  ultimately show "NL < c" by simp
qed

lemma plain_compare:
  assumes "plain s1" "plain s2" "a \<in> set (lines_of s1)" "b \<in> set (lines_of s2)"
  shows "(a < b \<longrightarrow> strip a \<le> strip b) \<and> (\<not> a < b \<longrightarrow> strip b \<le> strip a)"
proof -
  have 1: "b < a" if "strip b < strip a"
    using less_with_terminator [OF that plain_line_content [OF assms(1,3)] strip_cases strip_cases] .
  have 2: "a < b" if "strip a < strip b"
    using less_with_terminator [OF that plain_line_content [OF assms(2,4)] strip_cases strip_cases] .
  from 1 2 show ?thesis by (meson less_asym not_le)
qed

lemma contents_written:
  assumes "\<forall>l\<in>set ls. l \<noteq> [] \<and> NL \<notin> set (butlast l)"
  shows "contents (concat (map print ls)) = map strip ls"
  by (simp add: contents_def lines_of_concat_print [OF assms])

lemma merge_lines_are_lines:
  "\<forall>l\<in>set (merge_lines (lines_of s1) (lines_of s2)). l \<noteq> [] \<and> NL \<notin> set (butlast l)"
  using lines_of_line by auto


subsection \<open>Streams shorter than promised\<close>

lemma merge_cut_prefix: "\<exists>rest. merge_lines xs ys = merge_cut short1 short2 xs ys @ rest"
  by (induction short1 short2 xs ys rule: merge_cut.induct) auto

lemma merge_cut_last:
  "short1 \<or> short2 \<Longrightarrow>
   merge_cut short1 short2 xs ys = [] \<and> (xs = [] \<and> short1 \<or> ys = [] \<and> short2) \<or>
   short1 \<and> xs \<noteq> [] \<and> merge_cut short1 short2 xs ys \<noteq> [] \<and>
     last (merge_cut short1 short2 xs ys) = last xs \<or>
   short2 \<and> ys \<noteq> [] \<and> merge_cut short1 short2 xs ys \<noteq> [] \<and>
     last (merge_cut short1 short2 xs ys) = last ys"
proof (induction short1 short2 xs ys rule: merge_cut.induct)
  case (1 short1 short2 ys)
  then show ?case by auto
next
  case (2 short1 short2 x xs)
  then show ?case by auto
next
  case (3 short1 short2 x xs y ys)
  show ?case
  proof (cases "strcmp x y < 0")
    case True
    from "3.IH"(1) [OF True "3.prems"] show ?thesis using True by auto
  next
    case False
    from "3.IH"(2) [OF False "3.prems"] show ?thesis using False by auto
  qed
qed

lemma written_lines_last:
  assumes "int (length (lines_of s1)) < c1 \<or> int (length (lines_of s2)) < c2"
  shows "written_lines s1 s2 c1 c2 = [] \<or>
         int (length (lines_of s1)) < c1 \<and> last (written_lines s1 s2 c1 c2) = last (lines_of s1) \<or>
         int (length (lines_of s2)) < c2 \<and> last (written_lines s1 s2 c1 c2) = last (lines_of s2)"
proof -
  have 1: "take (nat c1) (lines_of s1) = lines_of s1" if "int (length (lines_of s1)) < c1"
    using that by simp
  have 2: "take (nat c2) (lines_of s2) = lines_of s2" if "int (length (lines_of s2)) < c2"
    using that by simp
  from merge_cut_last [OF assms, of "take (nat c1) (lines_of s1)" "take (nat c2) (lines_of s2)"]
  show ?thesis unfolding written_lines_def using 1 2 by auto
qed

lemma drain_left_short:
  "lines_of (file1 m) = ls \<Longrightarrow> int (length ls) < c - i \<Longrightarrow>
   drain_left i c m
     = Inl (error_exit (stdout m @ concat (map print ls)) ''Could not read line'')"
proof (induction ls arbitrary: i m)
  case Nil
  then have "i < c" "getline (file1 m) = None" by (simp_all add: lines_of_eq_Nil)
  then show ?case by (subst drain_left.simps) (simp add: readline_left_None)
next
  case (Cons l ls)
  from lines_of_eq_Cons [OF Cons.prems(1)] obtain r
    where g: "getline (file1 m) = Some (l, r)" and r: "lines_of r = ls" by blast
  let ?m1 = "print_left (m\<lparr>left := l, file1 := r\<rparr>)"
  have "i < c" using Cons.prems(2) by simp
  then have "drain_left i c m = drain_left (i + 1) c ?m1"
    using readline_left_Some [OF g] by (simp add: drain_left.simps [of i c m])
  moreover have "lines_of (file1 ?m1) = ls" "int (length ls) < c - (i + 1)"
    using r Cons.prems(2) by simp_all
  from Cons.IH [OF this]
  have "drain_left (i + 1) c ?m1
          = Inl (error_exit (stdout m @ concat (map print (l # ls))) ''Could not read line'')"
    by simp
  ultimately show ?case by simp
qed

lemma drain_right_short:
  "lines_of (file2 m) = ls \<Longrightarrow> int (length ls) < c - i \<Longrightarrow>
   drain_right i c m
     = Inl (error_exit (stdout m @ concat (map print ls)) ''Could not read line'')"
proof (induction ls arbitrary: i m)
  case Nil
  then have "i < c" "getline (file2 m) = None" by (simp_all add: lines_of_eq_Nil)
  then show ?case by (subst drain_right.simps) (simp add: readline_right_None)
next
  case (Cons l ls)
  from lines_of_eq_Cons [OF Cons.prems(1)] obtain r
    where g: "getline (file2 m) = Some (l, r)" and r: "lines_of r = ls" by blast
  let ?m1 = "print_right (m\<lparr>right := l, file2 := r\<rparr>)"
  have "i < c" using Cons.prems(2) by simp
  then have "drain_right i c m = drain_right (i + 1) c ?m1"
    using readline_right_Some [OF g] by (simp add: drain_right.simps [of i c m])
  moreover have "lines_of (file2 ?m1) = ls" "int (length ls) < c - (i + 1)"
    using r Cons.prems(2) by simp_all
  from Cons.IH [OF this]
  have "drain_right (i + 1) c ?m1
          = Inl (error_exit (stdout m @ concat (map print (l # ls))) ''Could not read line'')"
    by simp
  ultimately show ?case by simp
qed

lemma take_nat_Cons: "0 < n \<Longrightarrow> take (nat n) (y # ys) = y # take (nat (n - 1)) ys"
proof -
  assume "0 < n"
  then have "nat n = Suc (nat (n - 1))" by linarith
  then show ?thesis by simp
qed

lemma rest_left_step:
  assumes "lines_of (file2 m) = y # ys" "processed_c2 m < c2"
    and "file1 m1 = file1 m" "lines_of (file2 m1) = ys"
  shows "left m < y \<Longrightarrow> right m1 = y \<Longrightarrow> processed_c1 m1 = processed_c1 m + 1 \<Longrightarrow>
           processed_c2 m1 = processed_c2 m \<Longrightarrow>
           rest_left c1 c2 m = left m # rest_right c1 c2 m1"
    and "\<not> left m < y \<Longrightarrow> left m1 = left m \<Longrightarrow> processed_c1 m1 = processed_c1 m \<Longrightarrow>
           processed_c2 m1 = processed_c2 m + 1 \<Longrightarrow>
           rest_left c1 c2 m = y # rest_left c1 c2 m1"
proof -
  have t: "take (nat (c2 - processed_c2 m)) (y # ys)
             = y # take (nat (c2 - processed_c2 m - 1)) ys"
    using assms(2) by (simp add: take_nat_Cons)
  have b: "(int (length (y # ys)) < c2 - processed_c2 m)
             = (int (length ys) < c2 - processed_c2 m - 1)" by auto
  have e: "c1 - (processed_c1 m + 1) = c1 - processed_c1 m - 1"
    "c2 - (processed_c2 m + 1) = c2 - processed_c2 m - 1" by simp_all
  show "left m < y \<Longrightarrow> right m1 = y \<Longrightarrow> processed_c1 m1 = processed_c1 m + 1 \<Longrightarrow>
           processed_c2 m1 = processed_c2 m \<Longrightarrow>
           rest_left c1 c2 m = left m # rest_right c1 c2 m1"
    unfolding rest_left_def rest_right_def assms t b by (simp add: e)
  show "\<not> left m < y \<Longrightarrow> left m1 = left m \<Longrightarrow> processed_c1 m1 = processed_c1 m \<Longrightarrow>
           processed_c2 m1 = processed_c2 m + 1 \<Longrightarrow>
           rest_left c1 c2 m = y # rest_left c1 c2 m1"
    unfolding rest_left_def assms t b by (simp add: e)
qed

lemma rest_right_step:
  assumes "lines_of (file1 m) = x # xs" "processed_c1 m < c1"
    and "file2 m1 = file2 m" "lines_of (file1 m1) = xs"
  shows "x < right m \<Longrightarrow> right m1 = right m \<Longrightarrow> processed_c1 m1 = processed_c1 m + 1 \<Longrightarrow>
           processed_c2 m1 = processed_c2 m \<Longrightarrow>
           rest_right c1 c2 m = x # rest_right c1 c2 m1"
    and "\<not> x < right m \<Longrightarrow> left m1 = x \<Longrightarrow> processed_c1 m1 = processed_c1 m \<Longrightarrow>
           processed_c2 m1 = processed_c2 m + 1 \<Longrightarrow>
           rest_right c1 c2 m = right m # rest_left c1 c2 m1"
proof -
  have t: "take (nat (c1 - processed_c1 m)) (x # xs)
             = x # take (nat (c1 - processed_c1 m - 1)) xs"
    using assms(2) by (simp add: take_nat_Cons)
  have b: "(int (length (x # xs)) < c1 - processed_c1 m)
             = (int (length xs) < c1 - processed_c1 m - 1)" by auto
  have e: "c1 - (processed_c1 m + 1) = c1 - processed_c1 m - 1"
    "c2 - (processed_c2 m + 1) = c2 - processed_c2 m - 1" by simp_all
  show "x < right m \<Longrightarrow> right m1 = right m \<Longrightarrow> processed_c1 m1 = processed_c1 m + 1 \<Longrightarrow>
           processed_c2 m1 = processed_c2 m \<Longrightarrow>
           rest_right c1 c2 m = x # rest_right c1 c2 m1"
    unfolding rest_right_def assms t b by (simp add: e)
  show "\<not> x < right m \<Longrightarrow> left m1 = x \<Longrightarrow> processed_c1 m1 = processed_c1 m \<Longrightarrow>
           processed_c2 m1 = processed_c2 m + 1 \<Longrightarrow>
           rest_right c1 c2 m = right m # rest_left c1 c2 m1"
    unfolding rest_left_def rest_right_def assms t b by (simp add: e)
qed

lemma rest_left_no_line:
  "lines_of (file2 m) = [] \<Longrightarrow> processed_c2 m < c2 \<Longrightarrow> rest_left c1 c2 m = []"
  by (simp add: rest_left_def)

lemma rest_right_no_line:
  "lines_of (file1 m) = [] \<Longrightarrow> processed_c1 m < c1 \<Longrightarrow> rest_right c1 c2 m = []"
  by (simp add: rest_right_def)

lemma rest_left_done:
  "processed_c2 m = c2 \<Longrightarrow> int (length (lines_of (file1 m))) < c1 - processed_c1 m - 1 \<Longrightarrow>
   rest_left c1 c2 m = left m # lines_of (file1 m)"
  by (simp add: rest_left_def)

lemma rest_right_done:
  "processed_c1 m = c1 \<Longrightarrow> int (length (lines_of (file2 m))) < c2 - processed_c2 m - 1 \<Longrightarrow>
   rest_right c1 c2 m = right m # lines_of (file2 m)"
  by (simp add: rest_right_def)

lemma merge_general_short:
  "(lock m = 1 \<longrightarrow> processed_c1 m < c1 \<longrightarrow> processed_c2 m \<le> c2 \<longrightarrow>
      int (length (lines_of (file1 m))) < c1 - processed_c1 m - 1 \<or>
      int (length (lines_of (file2 m))) < c2 - processed_c2 m \<longrightarrow>
      merge_general c1 c2 m
        = Inl (error_exit (stdout m @ concat (map print (rest_left c1 c2 m)))
                 ''Could not read line'')) \<and>
   (lock m = 2 \<longrightarrow> processed_c1 m \<le> c1 \<longrightarrow> processed_c2 m < c2 \<longrightarrow>
      int (length (lines_of (file1 m))) < c1 - processed_c1 m \<or>
      int (length (lines_of (file2 m))) < c2 - processed_c2 m - 1 \<longrightarrow>
      merge_general c1 c2 m
        = Inl (error_exit (stdout m @ concat (map print (rest_right c1 c2 m)))
                 ''Could not read line''))"
proof (induction c1 c2 m rule: merge_loop.induct)
  case (1 c1 c2 m)
  have left_locked: "merge_general c1 c2 m
        = Inl (error_exit (stdout m @ concat (map print (rest_left c1 c2 m)))
                 ''Could not read line'')"
    if l: "lock m = 1" and b1: "processed_c1 m < c1" and b2: "processed_c2 m \<le> c2"
      and short: "int (length (lines_of (file1 m))) < c1 - processed_c1 m - 1 \<or>
                  int (length (lines_of (file2 m))) < c2 - processed_c2 m"
  proof (cases "processed_c2 m = c2")
    case True
    with short have s0: "int (length (lines_of (file1 m))) < c1 - processed_c1 m - 1" by simp
    then have s: "int (length (lines_of (file1 m))) < c1 - (processed_c1 m + 1)" by simp
    let ?m2 = "(print_left m)\<lparr>processed_c1 := processed_c1 m + 1\<rparr>"
    have "lines_of (file1 ?m2) = lines_of (file1 m)" by simp
    from drain_left_short [OF this s] merge_general_exit1 [OF l True]
    show ?thesis by (simp add: rest_left_done [OF True s0])
  next
    case False
    with b1 b2 have guard: "processed_c1 m \<noteq> c1 \<and> processed_c2 m \<noteq> c2"
      and b2': "processed_c2 m < c2" by simp_all
    show ?thesis
    proof (cases "getline (file2 m)")
      case None
      from merge_general_fail [OF guard loop_body_lock1_fail [OF l None]]
      show ?thesis by (simp add: rest_left_no_line [OF lines_of_None [OF None] b2'])
    next
      case (Some p)
      obtain y r where g: "getline (file2 m) = Some (y, r)" using Some by (cases p) auto
      note ls = lines_of_Some [OF g]
      from loop_body_lock1 [OF l g] obtain m1 where b: "loop_body m = Inr m1"
        and f: "file1 m1 = file1 m" "file2 m1 = r"
        and c: "if left m < y
          then lock m1 = 2 \<and> right m1 = y \<and> stdout m1 = stdout m @ print (left m) \<and>
               processed_c1 m1 = processed_c1 m + 1 \<and> processed_c2 m1 = processed_c2 m
          else lock m1 = 1 \<and> left m1 = left m \<and> stdout m1 = stdout m @ print y \<and>
               processed_c1 m1 = processed_c1 m \<and> processed_c2 m1 = processed_c2 m + 1"
        by blast
      have f2: "lines_of (file2 m1) = lines_of r" using f by simp
      note ih = "1.IH" [OF guard b]
      note cont = merge_general_continue [OF guard b]
      note step = rest_left_step [OF ls b2' f(1) f2, of c1]
      show ?thesis
      proof (cases "left m < y")
        case True
        with c have c': "lock m1 = 2" "right m1 = y" "stdout m1 = stdout m @ print (left m)"
          "processed_c1 m1 = processed_c1 m + 1" "processed_c2 m1 = processed_c2 m"
          by simp_all
        have "processed_c1 m1 \<le> c1" "processed_c2 m1 < c2"
          "int (length (lines_of (file1 m1))) < c1 - processed_c1 m1 \<or>
           int (length (lines_of (file2 m1))) < c2 - processed_c2 m1 - 1"
          using b1 b2' short ls f c' by auto
        with ih c'(1) have "merge_general c1 c2 m1
            = Inl (error_exit (stdout m1 @ concat (map print (rest_right c1 c2 m1)))
                     ''Could not read line'')" by blast
        then show ?thesis
          using cont step(1) [OF True c'(2,4,5)] c'(3) by simp
      next
        case False
        with c have c': "lock m1 = 1" "left m1 = left m" "stdout m1 = stdout m @ print y"
          "processed_c1 m1 = processed_c1 m" "processed_c2 m1 = processed_c2 m + 1"
          by simp_all
        have "processed_c1 m1 < c1" "processed_c2 m1 \<le> c2"
          "int (length (lines_of (file1 m1))) < c1 - processed_c1 m1 - 1 \<or>
           int (length (lines_of (file2 m1))) < c2 - processed_c2 m1"
          using b1 b2' short ls f c' by auto
        with ih c'(1) have "merge_general c1 c2 m1
            = Inl (error_exit (stdout m1 @ concat (map print (rest_left c1 c2 m1)))
                     ''Could not read line'')" by blast
        then show ?thesis
          using cont step(2) [OF False c'(2,4,5)] c'(3) by simp
      qed
    qed
  qed
  have right_locked: "merge_general c1 c2 m
        = Inl (error_exit (stdout m @ concat (map print (rest_right c1 c2 m)))
                 ''Could not read line'')"
    if l: "lock m = 2" and b1: "processed_c1 m \<le> c1" and b2: "processed_c2 m < c2"
      and short: "int (length (lines_of (file1 m))) < c1 - processed_c1 m \<or>
                  int (length (lines_of (file2 m))) < c2 - processed_c2 m - 1"
  proof (cases "processed_c1 m = c1")
    case True
    with short have s0: "int (length (lines_of (file2 m))) < c2 - processed_c2 m - 1" by simp
    then have s: "int (length (lines_of (file2 m))) < c2 - (processed_c2 m + 1)" by simp
    let ?m2 = "(print_right m)\<lparr>processed_c2 := processed_c2 m + 1\<rparr>"
    have "lines_of (file2 ?m2) = lines_of (file2 m)" by simp
    from drain_right_short [OF this s] merge_general_exit2 [OF l True]
    show ?thesis by (simp add: rest_right_done [OF True s0])
  next
    case False
    with b1 b2 have guard: "processed_c1 m \<noteq> c1 \<and> processed_c2 m \<noteq> c2"
      and b1': "processed_c1 m < c1" by simp_all
    show ?thesis
    proof (cases "getline (file1 m)")
      case None
      from merge_general_fail [OF guard loop_body_lock2_fail [OF l None]]
      show ?thesis by (simp add: rest_right_no_line [OF lines_of_None [OF None] b1'])
    next
      case (Some p)
      obtain x r where g: "getline (file1 m) = Some (x, r)" using Some by (cases p) auto
      note ls = lines_of_Some [OF g]
      from loop_body_lock2 [OF l g] obtain m1 where b: "loop_body m = Inr m1"
        and f: "file1 m1 = r" "file2 m1 = file2 m"
        and c: "if x < right m
          then lock m1 = 2 \<and> right m1 = right m \<and> stdout m1 = stdout m @ print x \<and>
               processed_c1 m1 = processed_c1 m + 1 \<and> processed_c2 m1 = processed_c2 m
          else lock m1 = 1 \<and> left m1 = x \<and> stdout m1 = stdout m @ print (right m) \<and>
               processed_c1 m1 = processed_c1 m \<and> processed_c2 m1 = processed_c2 m + 1"
        by blast
      have f1: "lines_of (file1 m1) = lines_of r" using f by simp
      note ih = "1.IH" [OF guard b]
      note cont = merge_general_continue [OF guard b]
      note step = rest_right_step [OF ls b1' f(2) f1, of c2]
      show ?thesis
      proof (cases "x < right m")
        case True
        with c have c': "lock m1 = 2" "right m1 = right m" "stdout m1 = stdout m @ print x"
          "processed_c1 m1 = processed_c1 m + 1" "processed_c2 m1 = processed_c2 m"
          by simp_all
        have "processed_c1 m1 \<le> c1" "processed_c2 m1 < c2"
          "int (length (lines_of (file1 m1))) < c1 - processed_c1 m1 \<or>
           int (length (lines_of (file2 m1))) < c2 - processed_c2 m1 - 1"
          using b1' b2 short ls f c' by auto
        with ih c'(1) have "merge_general c1 c2 m1
            = Inl (error_exit (stdout m1 @ concat (map print (rest_right c1 c2 m1)))
                     ''Could not read line'')" by blast
        then show ?thesis
          using cont step(1) [OF True c'(2,4,5)] c'(3) by simp
      next
        case False
        with c have c': "lock m1 = 1" "left m1 = x" "stdout m1 = stdout m @ print (right m)"
          "processed_c1 m1 = processed_c1 m" "processed_c2 m1 = processed_c2 m + 1"
          by simp_all
        have "processed_c1 m1 < c1" "processed_c2 m1 \<le> c2"
          "int (length (lines_of (file1 m1))) < c1 - processed_c1 m1 - 1 \<or>
           int (length (lines_of (file2 m1))) < c2 - processed_c2 m1"
          using b1' b2 short ls f c' by auto
        with ih c'(1) have "merge_general c1 c2 m1
            = Inl (error_exit (stdout m1 @ concat (map print (rest_left c1 c2 m1)))
                     ''Could not read line'')" by blast
        then show ?thesis
          using cont step(2) [OF False c'(2,4,5)] c'(3) by simp
      qed
    qed
  qed
  from left_locked right_locked show ?case by blast
qed

lemma merge_general_init_short:
  assumes c: "1 \<le> c1" "1 \<le> c2"
    and short: "int (length (lines_of s1)) < c1 \<or> int (length (lines_of s2)) < c2"
  shows "merge_general c1 c2 (init s1 s2)
           = Inl (error_exit
               (concat (map print
                  (merge_cut (int (length (lines_of s1)) < c1) (int (length (lines_of s2)) < c2)
                     (take (nat c1) (lines_of s1)) (take (nat c2) (lines_of s2)))))
               ''Could not read line'')"
proof -
  let ?m = "init s1 s2"
  let ?cut = "merge_cut (int (length (lines_of s1)) < c1) (int (length (lines_of s2)) < c2)
                     (take (nat c1) (lines_of s1)) (take (nat c2) (lines_of s2))"
  have guard: "processed_c1 ?m \<noteq> c1 \<and> processed_c2 ?m \<noteq> c2" using c by simp
  have l: "lock ?m = 0" by simp
  show ?thesis
  proof (cases "getline s1")
    case None
    then have "?cut = []" using c by (simp add: lines_of_None)
    moreover have "merge_general c1 c2 ?m = Inl (error_exit (stdout ?m) ''Could not read line'')"
      by (rule merge_general_fail [OF guard loop_body_lock0_fail [OF l]]) (simp add: None)
    ultimately show ?thesis by simp
  next
    case (Some p1)
    obtain x r1 where g1: "getline (file1 ?m) = Some (x, r1)" using Some by (cases p1) auto
    have xs: "lines_of s1 = x # lines_of r1" using lines_of_Some [OF g1] by simp
    have tx: "take (nat c1) (lines_of s1) = x # take (nat (c1 - 1)) (lines_of r1)"
      using c by (simp add: xs take_nat_Cons)
    show ?thesis
    proof (cases "getline s2")
      case None
      then have "?cut = []" using c by (simp add: lines_of_None tx)
      moreover have "merge_general c1 c2 ?m = Inl (error_exit (stdout ?m) ''Could not read line'')"
        by (rule merge_general_fail [OF guard loop_body_lock0_fail [OF l]]) (simp add: None)
      ultimately show ?thesis by simp
    next
      case (Some p2)
      obtain y r2 where g2: "getline (file2 ?m) = Some (y, r2)" using Some by (cases p2) auto
      have ys: "lines_of s2 = y # lines_of r2" using lines_of_Some [OF g2] by simp
      have ty: "take (nat c2) (lines_of s2) = y # take (nat (c2 - 1)) (lines_of r2)"
        using c by (simp add: ys take_nat_Cons)
      have fl: "(int (length (lines_of s1)) < c1) = (int (length (lines_of r1)) < c1 - 1)"
        "(int (length (lines_of s2)) < c2) = (int (length (lines_of r2)) < c2 - 1)"
        by (auto simp: xs ys)
      from loop_body_lock0 [OF l g1 g2] obtain m1 where b: "loop_body ?m = Inr m1"
        and f: "file1 m1 = r1" "file2 m1 = r2"
        and cs: "if x < y
          then lock m1 = 2 \<and> right m1 = y \<and> stdout m1 = stdout ?m @ print x \<and>
               processed_c1 m1 = processed_c1 ?m + 1 \<and> processed_c2 m1 = processed_c2 ?m
          else lock m1 = 1 \<and> left m1 = x \<and> stdout m1 = stdout ?m @ print y \<and>
               processed_c1 m1 = processed_c1 ?m \<and> processed_c2 m1 = processed_c2 ?m + 1"
        by blast
      note cont = merge_general_continue [OF guard b]
      show ?thesis
      proof (cases "x < y")
        case True
        with cs have c': "lock m1 = 2" "right m1 = y" "stdout m1 = print x"
          "processed_c1 m1 = 1" "processed_c2 m1 = 0" by simp_all
        have "processed_c1 m1 \<le> c1" "processed_c2 m1 < c2"
          "int (length (lines_of (file1 m1))) < c1 - processed_c1 m1 \<or>
           int (length (lines_of (file2 m1))) < c2 - processed_c2 m1 - 1"
          using c short xs ys f c' by auto
        with merge_general_short [of m1 c1 c2] c'(1)
        have "merge_general c1 c2 m1
            = Inl (error_exit (stdout m1 @ concat (map print (rest_right c1 c2 m1)))
                     ''Could not read line'')" by blast
        moreover have "?cut = x # rest_right c1 c2 m1"
          unfolding rest_right_def tx ty fl f c' using True by simp
        ultimately show ?thesis using cont c'(3) by simp
      next
        case False
        with cs have c': "lock m1 = 1" "left m1 = x" "stdout m1 = print y"
          "processed_c1 m1 = 0" "processed_c2 m1 = 1" by simp_all
        have "processed_c1 m1 < c1" "processed_c2 m1 \<le> c2"
          "int (length (lines_of (file1 m1))) < c1 - processed_c1 m1 - 1 \<or>
           int (length (lines_of (file2 m1))) < c2 - processed_c2 m1"
          using c short xs ys f c' by auto
        with merge_general_short [of m1 c1 c2] c'(1)
        have "merge_general c1 c2 m1
            = Inl (error_exit (stdout m1 @ concat (map print (rest_left c1 c2 m1)))
                     ''Could not read line'')" by blast
        moreover have "?cut = y # rest_left c1 c2 m1"
          unfolding rest_left_def tx ty fl f c' using False by simp
        ultimately show ?thesis using cont c'(3) by simp
      qed
    qed
  qed
qed

subsection \<open>Reading, feeding and the main program\<close>

lemma store_line_fields [simp]:
  "lines (store_line line ing) = lines ing @ [line]"
  "numlines (store_line line ing) = numlines ing + 1"
  "stores (store_line line ing) = stores ing @ [(numlines ing, arrlen ing)]"
  by (simp_all add: store_line_def Let_def)

lemma read_loop_lines:
  "lines (read_loop ing) = lines ing @ lines_of (unread ing) \<and>
   numlines (read_loop ing) = numlines ing + int (length (lines_of (unread ing)))"
proof (induction ing rule: read_loop.induct)
  case (1 ing)
  show ?case
  proof (cases "getline (unread ing)")
    case None
    then show ?thesis by (simp add: read_loop.simps [of ing] lines_of_None)
  next
    case (Some p)
    obtain l r where g: "getline (unread ing) = Some (l, r)" using Some by (cases p) auto
    from "1.IH" [OF g refl] g show ?thesis
      by (simp add: read_loop.simps [of ing] lines_of_Some [OF g])
  qed
qed

lemma read_lines_lines [simp]:
  "lines (read_lines stdin) = lines_of stdin"
  "numlines (read_lines stdin) = int (length (lines_of stdin))"
  using read_loop_lines [of "\<lparr>unread = stdin, lines = [], numlines = 0, arrlen = STEPSIZE, stores = []\<rparr>"]
  by (simp_all add: read_lines_def)

lemma feed_stop: "\<not> i < bound \<Longrightarrow> feed ls i bound w c = (w, c)"
  by (subst feed.simps) simp

lemma feed_step:
  "i < bound \<Longrightarrow> feed ls i bound w c = feed ls (i + 1) bound (w @ ls ! nat i) (c + 1)"
  by (subst feed.simps) simp

lemma feed_eq:
  "0 \<le> i \<Longrightarrow> i \<le> bound \<Longrightarrow> bound \<le> int (length ls) \<Longrightarrow>
   feed ls i bound w c
     = (w @ concat (take (nat (bound - i)) (drop (nat i) ls)), c + (bound - i))"
proof (induction ls i bound w c rule: feed.induct)
  case (1 ls i bound w c)
  show ?case
  proof (cases "i < bound")
    case False
    with "1.prems" show ?thesis by (simp add: feed_stop)
  next
    case True
    have n: "nat i < length ls" using True "1.prems" by linarith
    have d: "drop (nat i) ls = ls ! nat i # drop (nat (i + 1)) ls"
      using n "1.prems"(1) by (simp add: Cons_nth_drop_Suc nat_succ)
    have t: "nat (bound - i) = Suc (nat (bound - (i + 1)))" using True by linarith
    from "1.IH" [OF True] "1.prems" True
    have "feed ls (i + 1) bound (w @ ls ! nat i) (c + 1)
            = ((w @ ls ! nat i) @ concat (take (nat (bound - (i + 1))) (drop (nat (i + 1)) ls)),
               (c + 1) + (bound - (i + 1)))" by simp
    then show ?thesis using True by (simp add: feed_step d t)
  qed
qed

lemma getline_line_rest:
  assumes "l \<noteq> []" "NL \<notin> set (butlast l)" "last l = NL"
  shows "getline (l @ rest) = Some (l, rest)"
proof -
  from assms have "l = butlast l @ [NL]" by (metis append_butlast_last_id)
  then show ?thesis using getline_append_NL [OF assms(2), of rest] by (metis append.assoc append_Cons append_Nil)
qed

lemma concat_lines_of: "concat (lines_of s) = s"
proof (induction s rule: lines_of.induct)
  case (1 s)
  show ?case
  proof (cases "getline s")
    case None
    then show ?thesis by (simp add: lines_of_None getline_None)
  next
    case (Some p)
    obtain l r where g: "getline s = Some (l, r)" using Some by (cases p) auto
    have "concat (lines_of s) = l @ r"
      using "1.IH" [OF g refl] by (simp add: lines_of_Some [OF g])
    with getline_split [OF g] show ?thesis by simp
  qed
qed

lemma lines_of_single: "getline s = Some (s, []) \<Longrightarrow> lines_of s = [s]"
  by (simp add: lines_of_Some)

lemma lines_of_concat_take:
  "lines_of (concat (take k (lines_of s))) = take k (lines_of s)"
proof (induction s arbitrary: k rule: lines_of.induct)
  case (1 s)
  show ?case
  proof (cases "getline s")
    case None
    then show ?thesis by (simp add: lines_of_None)
  next
    case (Some p)
    obtain l r where g: "getline s = Some (l, r)" using Some by (cases p) auto
    note sp = getline_split [OF g] and ln = getline_line [OF g]
    show ?thesis
    proof (cases k)
      case 0
      then show ?thesis by simp
    next
      case (Suc j)
      have "getline (l @ concat (take j (lines_of r))) = Some (l, concat (take j (lines_of r)))"
      proof (cases "last l = NL")
        case True
        with ln show ?thesis by (simp add: getline_line_rest)
      next
        case False
        with sp have "r = []" "s = l" by simp_all
        with g show ?thesis by simp
      qed
      from lines_of_Some [OF this] "1.IH" [OF g refl, of j] Suc show ?thesis
        by (simp add: lines_of_Some [OF g])
    qed
  qed
qed

lemma lines_of_concat_drop:
  "lines_of (concat (drop k (lines_of s))) = drop k (lines_of s)"
proof (induction s arbitrary: k rule: lines_of.induct)
  case (1 s)
  show ?case
  proof (cases "getline s")
    case None
    then show ?thesis by (simp add: lines_of_None)
  next
    case (Some p)
    obtain l r where g: "getline s = Some (l, r)" using Some by (cases p) auto
    show ?thesis
    proof (cases k)
      case 0
      then show ?thesis by (simp add: concat_lines_of)
    next
      case (Suc j)
      with "1.IH" [OF g refl, of j] show ?thesis by (simp add: lines_of_Some [OF g])
    qed
  qed
qed


lemma run_merger_no_lines:
  "run_merger s1 s2 0 0 = error_exit [] ''lock cannot be 0 or > 2''"
  by (simp add: run_merger_def mergesort_def merge_general_def merge_loop_exit print_locked_def
      finish_def)

lemma main_empty:
  "status (main spawn1 spawn2 []) = EXIT_FAILURE \<and> out (main spawn1 spawn2 []) = []"
  by (cases spawn1; cases spawn2)
     (simp_all add: main_def Let_def feed_stop run_merger_no_lines error_exit_def)

lemma main_single_line:
  "lines_of stdin = [l] \<Longrightarrow> main spawn1 spawn2 stdin = exit_success l"
  by (simp add: main_def)

section \<open>Properties of the stream merger\<close>

subsection \<open>The worked example of the source\<close>

text \<open>
  Claim C8. The left stream holds the lines AN and HE (count 2), the right stream the
  lines DO, HU and TH (count 3): the merger writes AN, DO, HE, HU, TH, in this order, and
  the process ends with success.
\<close>

theorem merge_example:
  "map strip (lines_of ''AN\<newline>HE\<newline>'') = [''AN'', ''HE''] \<and>
   map strip (lines_of ''DO\<newline>HU\<newline>TH\<newline>'') = [''DO'', ''HU'', ''TH''] \<and>
   run_merger ''AN\<newline>HE\<newline>'' ''DO\<newline>HU\<newline>TH\<newline>'' 2 3
     = exit_success ''AN\<newline>DO\<newline>HE\<newline>HU\<newline>TH\<newline>'' \<and>
   map strip (lines_of (out (run_merger ''AN\<newline>HE\<newline>'' ''DO\<newline>HU\<newline>TH\<newline>'' 2 3)))
     = [''AN'', ''DO'', ''HE'', ''HU'', ''TH'']"
  by code_simp

subsection \<open>The trivial case against the general loop\<close>

text \<open>
  Claim C5. With one line promised on each side, the special-cased base merge (read one
  line from each side, compare once, print in order, exit) ends the process with the same
  outcome, so the same output, as the general path (loop, locked line, drain) followed by
  the exit at the end of \<^verbatim>\<open>main\<close>. This holds on all streams, also where a read fails.
\<close>

theorem trivial_case_refines_general:
  "merge_trivial (init s1 s2) = finish (merge_general 1 1 (init s1 s2))"
  by (rule merge_trivial_general)

subsection \<open>The lock at the end of the loop\<close>

text \<open>
  Claim C6. With at least one line promised on each side, when the loop of the general
  merge ends (it returns instead of exiting), exactly one side has reached its total, the
  lock is 1 or 2 and names the other side, whose buffer holds the one line of that side
  that was read and not yet printed; so the switch after the loop never takes its error
  branch. (The claim's exclusion of the counts 1 and 1 is not needed.)
\<close>

theorem loop_exit_locked:
  assumes "1 \<le> c1" "1 \<le> c2" "merge_loop c1 c2 (init s1 s2) = Inr m"
  shows "(lock m = 1 \<and> processed_c2 m = c2 \<and> processed_c1 m < c1 \<and>
          nat (processed_c1 m) < length (lines_of s1) \<and>
          left m = lines_of s1 ! nat (processed_c1 m) \<and>
          lines_of (file1 m) = drop (Suc (nat (processed_c1 m))) (lines_of s1) \<and>
          lines_of (file2 m) = drop (nat (processed_c2 m)) (lines_of s2)
        \<or> lock m = 2 \<and> processed_c1 m = c1 \<and> processed_c2 m < c2 \<and>
          nat (processed_c2 m) < length (lines_of s2) \<and>
          right m = lines_of s2 ! nat (processed_c2 m) \<and>
          lines_of (file1 m) = drop (nat (processed_c1 m)) (lines_of s1) \<and>
          lines_of (file2 m) = drop (Suc (nat (processed_c2 m))) (lines_of s2))
       \<and> print_locked m \<noteq> Inl (error_exit (stdout m) ''lock cannot be 0 or > 2'')"
proof -
  from merge_loop_inv [OF pending_inv_init assms]
  have inv: "pending_inv s1 s2 c1 c2 m"
    and g: "\<not> (processed_c1 m \<noteq> c1 \<and> processed_c2 m \<noteq> c2)" by simp_all
  from pending_inv_exit [OF inv assms(1,2) g] inv show ?thesis
    by (auto simp: pending_inv_def print_locked_def)
qed

theorem loop_exit_locked_witness:
  "(1::int) \<le> 2 \<and> (1::int) \<le> 3 \<and>
   merge_loop 2 3 (init ''AN\<newline>HE\<newline>'' ''DO\<newline>HU\<newline>TH\<newline>'')
     = Inr \<lparr>file1 = [], file2 = ''TH\<newline>'', left = ''HE'', right = ''HU\<newline>'', lock = 2,
            processed_c1 = 2, processed_c2 = 1, stdout = ''AN\<newline>DO\<newline>HE\<newline>''\<rparr> \<and>
   print_locked \<lparr>file1 = [], file2 = ''TH\<newline>'', left = ''HE'', right = ''HU\<newline>'', lock = 2,
            processed_c1 = 2, processed_c2 = 1, stdout = ''AN\<newline>DO\<newline>HE\<newline>''\<rparr>
     \<noteq> Inl (error_exit ''AN\<newline>DO\<newline>HE\<newline>'' ''lock cannot be 0 or > 2'')"
proof -
  have h: "merge_loop 2 3 (init ''AN\<newline>HE\<newline>'' ''DO\<newline>HU\<newline>TH\<newline>'')
     = Inr \<lparr>file1 = [], file2 = ''TH\<newline>'', left = ''HE'', right = ''HU\<newline>'', lock = 2,
            processed_c1 = 2, processed_c2 = 1, stdout = ''AN\<newline>DO\<newline>HE\<newline>''\<rparr>"
    by code_simp
  have c: "(1::int) \<le> 2" "(1::int) \<le> 3" by simp_all
  from loop_exit_locked [OF c h, THEN conjunct2]
  have "print_locked \<lparr>file1 = [], file2 = ''TH\<newline>'', left = ''HE'', right = ''HU\<newline>'', lock = 2,
            processed_c1 = 2, processed_c2 = 1, stdout = ''AN\<newline>DO\<newline>HE\<newline>''\<rparr>
     \<noteq> Inl (error_exit ''AN\<newline>DO\<newline>HE\<newline>'' ''lock cannot be 0 or > 2'')"
    by simp
  with c h show ?thesis by blast
qed

subsection \<open>Iterations of the loop\<close>

text \<open>
  Claim C10. Each stream holds at least its promised count of lines, and both counts are
  at least one. Then in every state the loop reaches, neither counter exceeds its total;
  every iteration that starts there completes, adds one to exactly one of the two counters
  and writes exactly one line; the loop returns, after at most
  \<open>c1 + c2 - 1\<close> iterations.
\<close>

theorem merge_loop_iterations:
  assumes "1 \<le> c1" "1 \<le> c2"
    "c1 \<le> int (length (lines_of s1))" "c2 \<le> int (length (lines_of s2))"
  shows "(\<forall>n m. loop_reach c1 c2 (init s1 s2) n m \<longrightarrow>
            processed_c1 m \<le> c1 \<and> processed_c2 m \<le> c2 \<and> int n \<le> c1 + c2 - 1 \<and>
            (processed_c1 m \<noteq> c1 \<and> processed_c2 m \<noteq> c2 \<longrightarrow>
               (\<exists>m'. loop_body m = Inr m' \<and> one_step m m')))
       \<and> (\<exists>n m. loop_reach c1 c2 (init s1 s2) n m \<and>
             merge_loop c1 c2 (init s1 s2) = Inr m \<and> int n \<le> c1 + c2 - 1)"
proof -
  have each: "processed_c1 m \<le> c1 \<and> processed_c2 m \<le> c2 \<and> int n \<le> c1 + c2 - 1 \<and>
            (processed_c1 m \<noteq> c1 \<and> processed_c2 m \<noteq> c2 \<longrightarrow>
               (\<exists>m'. loop_body m = Inr m' \<and> one_step m m'))"
    if r: "loop_reach c1 c2 (init s1 s2) n m" for n m
  proof -
    from loop_reach_inv [OF r assms(1,2)]
    have inv: "pending_inv s1 s2 c1 c2 m" and n: "processed_c1 m + processed_c2 m = int n"
      by simp_all
    have "\<exists>m'. loop_body m = Inr m' \<and> one_step m m'"
      if g: "processed_c1 m \<noteq> c1 \<and> processed_c2 m \<noteq> c2"
    proof -
      from pending_inv_progress [OF inv assms g] obtain m' where b: "loop_body m = Inr m'"
        by blast
      with pending_inv_step [OF inv assms(1,2) g b] show ?thesis by blast
    qed
    with pending_inv_bounds [OF inv assms(1,2)] n show ?thesis by simp
  qed
  from merge_loop_reach [OF loop_reach.start pending_inv_init assms]
  obtain n m where r: "loop_reach c1 c2 (init s1 s2) n m"
    and l: "merge_loop c1 c2 (init s1 s2) = Inr m" by blast
  from each [OF r] r l have "\<exists>n m. loop_reach c1 c2 (init s1 s2) n m \<and>
             merge_loop c1 c2 (init s1 s2) = Inr m \<and> int n \<le> c1 + c2 - 1" by blast
  with each show ?thesis by blast
qed

theorem merge_loop_iterations_witness:
  "(1::int) \<le> 2 \<and> (1::int) \<le> 3 \<and>
   2 \<le> int (length (lines_of ''AN\<newline>HE\<newline>'')) \<and>
   3 \<le> int (length (lines_of ''DO\<newline>HU\<newline>TH\<newline>'')) \<and>
   (\<exists>n m. loop_reach 2 3 (init ''AN\<newline>HE\<newline>'' ''DO\<newline>HU\<newline>TH\<newline>'') n m \<and>
      merge_loop 2 3 (init ''AN\<newline>HE\<newline>'' ''DO\<newline>HU\<newline>TH\<newline>'') = Inr m \<and>
      int n \<le> 2 + 3 - 1)"
proof -
  have h1: "2 \<le> int (length (lines_of ''AN\<newline>HE\<newline>''))" by code_simp
  have h2: "3 \<le> int (length (lines_of ''DO\<newline>HU\<newline>TH\<newline>''))" by code_simp
  have c: "(1::int) \<le> 2" "(1::int) \<le> 3" by simp_all
  from merge_loop_iterations [OF c h1 h2]
  have "\<exists>n m. loop_reach 2 3 (init ''AN\<newline>HE\<newline>'' ''DO\<newline>HU\<newline>TH\<newline>'') n m \<and>
      merge_loop 2 3 (init ''AN\<newline>HE\<newline>'' ''DO\<newline>HU\<newline>TH\<newline>'') = Inr m \<and>
      int n \<le> 2 + 3 - 1"
    by (rule conjunct2)
  with c h1 h2 show ?thesis by blast
qed

subsection \<open>Sorted streams in, sorted stream out\<close>

text \<open>
  What the merger does on streams that hold exactly their promised counts of lines: it ends
  with success, and the lines it wrote are, terminators aside, a permutation of the lines
  of the two streams. The output is sorted by the lines without terminators when the input
  is and no byte is below the newline, and sorted by the lines with terminators when the
  input is and both streams end with a newline.
\<close>

lemma merger_sorted_permutation:
  assumes "c1 = int (length (lines_of s1))" "1 \<le> c1"
    and "c2 = int (length (lines_of s2))" "1 \<le> c2"
  shows "\<exists>written. run_merger s1 s2 c1 c2 = exit_success written \<and>
     mset (contents written) = mset (contents s1) + mset (contents s2) \<and>
     (plain s1 \<and> plain s2 \<and> sorted (contents s1) \<and> sorted (contents s2)
        \<longrightarrow> sorted (contents written)) \<and>
     (terminated s1 \<and> terminated s2 \<and> sorted (lines_of s1) \<and> sorted (lines_of s2)
        \<longrightarrow> sorted (lines_of written) \<and>
            mset (lines_of written) = mset (lines_of s1) + mset (lines_of s2))"
proof -
  let ?ms = "merge_lines (lines_of s1) (lines_of s2)"
  let ?w = "concat (map print ?ms)"
  have run: "run_merger s1 s2 c1 c2 = exit_success ?w"
    by (rule run_merger_lines [OF assms(1,3,2,4)])
  have cw: "contents ?w = map strip ?ms"
    by (rule contents_written [OF merge_lines_are_lines])
  have lw: "lines_of ?w = map print ?ms"
    by (rule lines_of_concat_print [OF merge_lines_are_lines])
  have perm: "mset (contents ?w) = mset (contents s1) + mset (contents s2)"
    unfolding cw by (simp add: contents_def)
  have by_contents: "sorted (contents ?w)"
    if "plain s1 \<and> plain s2 \<and> sorted (contents s1) \<and> sorted (contents s2)"
  proof -
    have "sorted (map strip ?ms)"
    proof (rule sorted_map_merge_lines)
      show "sorted (map strip (lines_of s1))" "sorted (map strip (lines_of s2))"
        using that by (simp_all add: contents_def)
      show "\<forall>x\<in>set (lines_of s1). \<forall>y\<in>set (lines_of s2).
              (x < y \<longrightarrow> strip x \<le> strip y) \<and> (\<not> x < y \<longrightarrow> strip y \<le> strip x)"
        using that plain_compare by blast
    qed
    then show ?thesis by (simp add: cw)
  qed
  have by_lines: "sorted (lines_of ?w) \<and>
            mset (lines_of ?w) = mset (lines_of s1) + mset (lines_of s2)"
    if t: "terminated s1 \<and> terminated s2 \<and> sorted (lines_of s1) \<and> sorted (lines_of s2)"
  proof -
    have "\<forall>l\<in>set ?ms. print l = l"
      using t terminated_lines print_terminated by auto
    then have same: "map print ?ms = ?ms" by (intro map_idI) simp
    have "sorted (map (\<lambda>l. l) ?ms)"
      by (rule sorted_map_merge_lines) (use t in auto)
    then show ?thesis unfolding trans [OF lw same] by simp
  qed
  from run perm by_contents by_lines show ?thesis by blast
qed

lemma merger_sorted_permutation_example:
  "(2::int) = int (length (lines_of ''AN\<newline>HE\<newline>'')) \<and> (1::int) \<le> 2 \<and>
   (3::int) = int (length (lines_of ''DO\<newline>HU\<newline>TH\<newline>'')) \<and> (1::int) \<le> 3 \<and>
   plain ''AN\<newline>HE\<newline>'' \<and> plain ''DO\<newline>HU\<newline>TH\<newline>'' \<and>
   sorted (contents ''AN\<newline>HE\<newline>'') \<and> sorted (contents ''DO\<newline>HU\<newline>TH\<newline>'') \<and>
   terminated ''AN\<newline>HE\<newline>'' \<and> terminated ''DO\<newline>HU\<newline>TH\<newline>'' \<and>
   sorted (lines_of ''AN\<newline>HE\<newline>'') \<and> sorted (lines_of ''DO\<newline>HU\<newline>TH\<newline>'') \<and>
   (\<exists>written. run_merger ''AN\<newline>HE\<newline>'' ''DO\<newline>HU\<newline>TH\<newline>'' 2 3 = exit_success written \<and>
      mset (contents written)
        = mset (contents ''AN\<newline>HE\<newline>'') + mset (contents ''DO\<newline>HU\<newline>TH\<newline>'') \<and>
      sorted (contents written) \<and> sorted (lines_of written))"
proof -
  have h1: "(2::int) = int (length (lines_of ''AN\<newline>HE\<newline>''))" by code_simp
  have h2: "(3::int) = int (length (lines_of ''DO\<newline>HU\<newline>TH\<newline>''))" by code_simp
  have c: "(1::int) \<le> 2" "(1::int) \<le> 3" by simp_all
  have p: "plain ''AN\<newline>HE\<newline>''" "plain ''DO\<newline>HU\<newline>TH\<newline>''" by code_simp+
  have sc: "sorted (contents ''AN\<newline>HE\<newline>'')" "sorted (contents ''DO\<newline>HU\<newline>TH\<newline>'')"
    by code_simp+
  have t: "terminated ''AN\<newline>HE\<newline>''" "terminated ''DO\<newline>HU\<newline>TH\<newline>''" by code_simp+
  have sl: "sorted (lines_of ''AN\<newline>HE\<newline>'')" "sorted (lines_of ''DO\<newline>HU\<newline>TH\<newline>'')"
    by code_simp+
  from merger_sorted_permutation [OF h1 c(1) h2 c(2)] p sc t sl
  have "\<exists>written. run_merger ''AN\<newline>HE\<newline>'' ''DO\<newline>HU\<newline>TH\<newline>'' 2 3 = exit_success written \<and>
      mset (contents written)
        = mset (contents ''AN\<newline>HE\<newline>'') + mset (contents ''DO\<newline>HU\<newline>TH\<newline>'') \<and>
      sorted (contents written) \<and> sorted (lines_of written)"
    by blast
  with h1 h2 c p sc t sl show ?thesis by blast
qed

text \<open>
  Claim C1 (a defect of the code). For two streams that are each sorted and hold their
  promised counts of lines, the merger should write the lines of both in non-decreasing
  lexicographic order. It does not: \<^verbatim>\<open>cmp_lock\<close> and the trivial case call \<^verbatim>\<open>strcmp\<close> on
  the buffers as \<^verbatim>\<open>getline\<close> filled them, newline included, and only \<^verbatim>\<open>print\<close> strips the
  newline. The streams with the single lines \<open>a\<close> and \<open>a TAB b\<close>, both terminated, are
  written as \<open>a TAB b\<close>, \<open>a\<close>, since TAB is below the newline; so the whole program
  turns the sorted input \<open>a\<close>, \<open>a TAB b\<close> into \<open>a TAB b\<close>, \<open>a\<close>. When the last input
  line has no newline (the single line of a leaf process is passed on as it was read),
  the same two lines come out in the other order, and the lines of the two streams are
  not written in the order \<^verbatim>\<open>strcmp\<close> gives them either.
\<close>

theorem merger_output_out_of_order:
  "length (lines_of ''a\<newline>'') = 1 \<and> length (lines_of (''a'' @ CHR 0x09 # ''b\<newline>'')) = 1 \<and>
   sorted (contents ''a\<newline>'') \<and> sorted (contents (''a'' @ CHR 0x09 # ''b\<newline>'')) \<and>
   run_merger ''a\<newline>'' (''a'' @ CHR 0x09 # ''b\<newline>'') 1 1
     = exit_success (''a'' @ CHR 0x09 # ''b\<newline>a\<newline>'') \<and>
   contents (''a'' @ CHR 0x09 # ''b\<newline>a\<newline>'') = [''a'' @ CHR 0x09 # ''b'', ''a''] \<and>
   \<not> sorted (contents (''a'' @ CHR 0x09 # ''b\<newline>a\<newline>'')) \<and>
   sorted (contents (''a\<newline>a'' @ CHR 0x09 # ''b\<newline>'')) \<and>
   forksort (Suc 0) (''a\<newline>a'' @ CHR 0x09 # ''b\<newline>'')
     = exit_success (''a'' @ CHR 0x09 # ''b\<newline>a\<newline>'') \<and>
   length (lines_of ''a'') = 1 \<and>
   sorted (lines_of ''a'') \<and> sorted (lines_of (''a'' @ CHR 0x09 # ''b\<newline>'')) \<and>
   run_merger (''a'' @ CHR 0x09 # ''b\<newline>'') ''a'' 1 1
     = exit_success (''a\<newline>a'' @ CHR 0x09 # ''b\<newline>'') \<and>
   \<not> sorted (lines_of (''a\<newline>a'' @ CHR 0x09 # ''b\<newline>'')) \<and>
   forksort (Suc 0) (''a'' @ CHR 0x09 # ''b\<newline>a'')
     = exit_success (''a\<newline>a'' @ CHR 0x09 # ''b\<newline>'')"
  by code_simp

subsection \<open>A stream that ends before its promised count\<close>

text \<open>
  Claim C7. Both counts are at least one and a stream holds fewer lines than its promised
  count. Then a read fails before that side is fully processed, and the process ends there:
  the outcome is that of \<^verbatim>\<open>error_exit("Could not read line")\<close>, with the diagnostic on the
  error stream and the status \<^verbatim>\<open>EXIT_FAILURE\<close>, which is not zero. Standard output holds
  exactly the lines written before the failed read and nothing after them: the beginning
  of the merge of the promised lines, up to the point where a line was wanted from a stream
  that had ended; so the output is empty or its last line is the last line of a stream that
  is shorter than promised.
\<close>

theorem short_stream_fails:
  assumes "1 \<le> c1" "1 \<le> c2"
    and "int (length (lines_of s1)) < c1 \<or> int (length (lines_of s2)) < c2"
  shows "run_merger s1 s2 c1 c2
           = error_exit (concat (map print (written_lines s1 s2 c1 c2)))
               ''Could not read line'' \<and>
         (\<exists>rest. merge_lines (take (nat c1) (lines_of s1)) (take (nat c2) (lines_of s2))
            = written_lines s1 s2 c1 c2 @ rest) \<and>
         (written_lines s1 s2 c1 c2 = [] \<or>
          int (length (lines_of s1)) < c1 \<and>
            last (written_lines s1 s2 c1 c2) = last (lines_of s1) \<or>
          int (length (lines_of s2)) < c2 \<and>
            last (written_lines s1 s2 c1 c2) = last (lines_of s2)) \<and>
         err (run_merger s1 s2 c1 c2) = ''Could not read line\<newline>'' \<and>
         status (run_merger s1 s2 c1 c2) = EXIT_FAILURE \<and>
         status (run_merger s1 s2 c1 c2) \<noteq> EXIT_SUCCESS"
proof -
  let ?w = "concat (map print (written_lines s1 s2 c1 c2))"
  have w: "merge_general c1 c2 (init s1 s2) = Inl (error_exit ?w ''Could not read line'')"
    unfolding written_lines_def by (rule merge_general_init_short [OF assms])
  have r: "run_merger s1 s2 c1 c2 = error_exit ?w ''Could not read line''"
  proof (cases "c1 = 1 \<and> c2 = 1")
    case True
    then show ?thesis using w merge_trivial_general [of s1 s2]
      by (simp add: run_merger_def mergesort_def finish_def)
  next
    case False
    then show ?thesis using w by (auto simp: run_merger_def mergesort_def finish_def)
  qed
  have p: "\<exists>rest. merge_lines (take (nat c1) (lines_of s1)) (take (nat c2) (lines_of s2))
            = written_lines s1 s2 c1 c2 @ rest"
    unfolding written_lines_def by (rule merge_cut_prefix)
  have "err (run_merger s1 s2 c1 c2) = ''Could not read line\<newline>''"
    "status (run_merger s1 s2 c1 c2) = EXIT_FAILURE"
    "status (run_merger s1 s2 c1 c2) \<noteq> EXIT_SUCCESS"
    unfolding r by (simp_all add: error_exit_def EXIT_FAILURE_def EXIT_SUCCESS_def)
  with r p written_lines_last [OF assms(3)] show ?thesis by blast
qed

theorem short_stream_fails_witness:
  "(1::int) \<le> 2 \<and> (1::int) \<le> 3 \<and>
   int (length (lines_of ''AN\<newline>'')) < 2 \<and>
   written_lines ''AN\<newline>'' ''DO\<newline>HU\<newline>TH\<newline>'' 2 3 = [''AN\<newline>''] \<and>
   run_merger ''AN\<newline>'' ''DO\<newline>HU\<newline>TH\<newline>'' 2 3
     = error_exit ''AN\<newline>'' ''Could not read line'' \<and>
   status (run_merger ''AN\<newline>'' ''DO\<newline>HU\<newline>TH\<newline>'' 2 3) \<noteq> EXIT_SUCCESS"
proof -
  have c: "(1::int) \<le> 2" "(1::int) \<le> 3" by simp_all
  have h: "int (length (lines_of ''AN\<newline>'')) < 2" by code_simp
  have m: "written_lines ''AN\<newline>'' ''DO\<newline>HU\<newline>TH\<newline>'' 2 3 = [''AN\<newline>'']" by code_simp
  have p: "concat (map print [''AN\<newline>'']) = ''AN\<newline>''" by code_simp
  have d: "int (length (lines_of ''AN\<newline>'')) < 2 \<or>
           int (length (lines_of ''DO\<newline>HU\<newline>TH\<newline>'')) < 3" using h by blast
  note t = short_stream_fails [OF c d]
  from t have "run_merger ''AN\<newline>'' ''DO\<newline>HU\<newline>TH\<newline>'' 2 3
     = error_exit ''AN\<newline>'' ''Could not read line''"
    unfolding m p by (rule conjunct1)
  moreover from t
  have "status (run_merger ''AN\<newline>'' ''DO\<newline>HU\<newline>TH\<newline>'' 2 3) \<noteq> EXIT_SUCCESS" by blast
  ultimately show ?thesis using c h m by blast
qed

section \<open>Properties of the main program\<close>

subsection \<open>The two halves\<close>

text \<open>
  Claim C2, as stated, fails on the code: the first loop runs up to \<^verbatim>\<open>numlines / 2\<close>,
  rounded down. With the three lines a, b, c the first child is sent one line, not
  two, and the second child two lines, not one.
\<close>

theorem splitter_counterexample:
  "length (lines_of ''a\<newline>b\<newline>c\<newline>'') = 3 \<and>
   feed (lines (read_lines ''a\<newline>b\<newline>c\<newline>'')) 0
        (numlines (read_lines ''a\<newline>b\<newline>c\<newline>'') div 2) [] 0 = (''a\<newline>'', 1) \<and>
   (1::int) \<noteq> (3 + 1) div 2 \<and>
   feed (lines (read_lines ''a\<newline>b\<newline>c\<newline>'')) 1
        (numlines (read_lines ''a\<newline>b\<newline>c\<newline>'')) [] 0 = (''b\<newline>c\<newline>'', 2) \<and>
   (2::int) \<noteq> 3 div 2"
  by code_simp

text \<open>
  Claim C2, amended. Of the N lines read, the first child is sent the first N div 2
  (rounded down), the second child the other (N + 1) div 2 (rounded up), each in the order
  they were read; read back line by line, the bytes in each pipe are these lines.
\<close>

theorem splitter_halves:
  "feed (lines (read_lines stdin)) 0 (numlines (read_lines stdin) div 2) [] 0
     = (concat (take (length (lines_of stdin) div 2) (lines_of stdin)),
        int (length (lines_of stdin) div 2)) \<and>
   feed (lines (read_lines stdin)) (int (length (lines_of stdin) div 2))
        (numlines (read_lines stdin)) [] 0
     = (concat (drop (length (lines_of stdin) div 2) (lines_of stdin)),
        int ((length (lines_of stdin) + 1) div 2)) \<and>
   lines_of (concat (take (length (lines_of stdin) div 2) (lines_of stdin)))
     = take (length (lines_of stdin) div 2) (lines_of stdin) \<and>
   lines_of (concat (drop (length (lines_of stdin) div 2) (lines_of stdin)))
     = drop (length (lines_of stdin) div 2) (lines_of stdin)"
proof -
  let ?ls = "lines_of stdin"
  let ?n = "length ?ls"
  have h: "int ?n div 2 = int (?n div 2)" by simp
  have 1: "feed ?ls 0 (int ?n div 2) [] 0 = (concat (take (?n div 2) ?ls), int (?n div 2))"
    using feed_eq [of 0 "int ?n div 2" ?ls "[]" 0] by (simp add: h del: of_nat_div)
  have 2: "feed ?ls (int (?n div 2)) (int ?n) [] 0
             = (concat (drop (?n div 2) ?ls), int ((?n + 1) div 2))"
    using feed_eq [of "int (?n div 2)" "int ?n" ?ls "[]" 0] by (simp add: nat_diff_distrib')
  from 1 2 show ?thesis by (simp add: lines_of_concat_take lines_of_concat_drop)
qed

subsection \<open>Empty input\<close>

text \<open>
  Claim C3 (a defect of the code). On empty input \<^verbatim>\<open>numlines\<close> is 0, which the program
  does not single out: it forks, feeds no line to either child, and the children are in the
  same position. Whatever \<^verbatim>\<open>fork\<close> and the children do, the process ends with
  \<^verbatim>\<open>EXIT_FAILURE\<close> and empty output (with two successful children, \<^verbatim>\<open>mergesort\<close> leaves
  its loop at once with lock 0 and takes the error branch); so does the whole tree, for
  every number of generations the system allows.
\<close>

theorem empty_input_fails:
  "status (main spawn1 spawn2 []) = EXIT_FAILURE \<and> out (main spawn1 spawn2 []) = [] \<and>
   status (forksort fuel []) = EXIT_FAILURE \<and> EXIT_FAILURE \<noteq> EXIT_SUCCESS"
proof -
  have "status (forksort fuel []) = EXIT_FAILURE"
    by (cases fuel) (simp_all add: main_empty)
  then show ?thesis by (simp add: main_empty EXIT_FAILURE_def EXIT_SUCCESS_def)
qed

subsection \<open>A single line without terminator\<close>

text \<open>
  Claim C4 (a defect of the code). A single input line is written with
  \<^verbatim>\<open>fprintf(stdout, "%s", lines[0])\<close>, not with \<^verbatim>\<open>print\<close>: when standard input is the one
  line \<open>a\<close> without a newline, standard output is \<open>a\<close> without a newline.
\<close>

theorem single_line_not_terminated:
  "lines_of ''a'' = [''a''] \<and> main spawn1 spawn2 ''a'' = exit_success ''a'' \<and>
   forksort fuel ''a'' = exit_success ''a'' \<and> out (forksort fuel ''a'') = ''a'' \<and>
   \<not> terminated (out (forksort fuel ''a''))"
proof -
  have l: "lines_of ''a'' = [''a'']" by code_simp
  have m: "main spawn1 spawn2 ''a'' = exit_success ''a''" for spawn1 spawn2
    by (rule main_single_line [OF l])
  have f: "forksort fuel ''a'' = exit_success ''a''" by (cases fuel) (simp_all add: m)
  have "\<not> terminated ''a''" by (simp add: terminated_def)
  with l m f show ?thesis by (simp add: exit_success_def)
qed

subsection \<open>Stores into the array of lines\<close>

text \<open>
  Claim C9 (a defect of the code). The store \<^verbatim>\<open>lines[numlines] = line\<close> comes before the
  test \<^verbatim>\<open>numlines == arrlen\<close>: with eleven input lines, the eleventh is stored at index
  10 while the capacity is still 10.
\<close>

theorem eleventh_line_stored_at_capacity:
  "length (lines_of ''a\<newline>b\<newline>c\<newline>d\<newline>e\<newline>f\<newline>g\<newline>h\<newline>i\<newline>j\<newline>k\<newline>'') = 11 \<and>
   stores (read_lines ''a\<newline>b\<newline>c\<newline>d\<newline>e\<newline>f\<newline>g\<newline>h\<newline>i\<newline>j\<newline>k\<newline>'')
     = [(0, 10), (1, 10), (2, 10), (3, 10), (4, 10), (5, 10), (6, 10), (7, 10), (8, 10),
        (9, 10), (10, 10)] \<and>
   list_ex (\<lambda>(i, capacity). \<not> i < capacity)
     (stores (read_lines ''a\<newline>b\<newline>c\<newline>d\<newline>e\<newline>f\<newline>g\<newline>h\<newline>i\<newline>j\<newline>k\<newline>''))"
  by code_simp

end
